theory Spec2Isabelle
  imports Main "HOL-Library.Word"
begin

section \<open>Data model of optedit.cc\<close>

text \<open>
  The repository holds two listings of \<^verbatim>\<open>optedit.cc\<close>.  The first one (an \<^verbatim>\<open>Edit\<close> with
  two characters, comparisons with \<^verbatim>\<open><\<close>) keeps the source's names here.  The second one
  (an \<^verbatim>\<open>Edit\<close> with one character, comparisons with \<^verbatim>\<open>>\<close>) carries the suffix \<open>2\<close> on
  every name.  \<^verbatim>\<open>unsigned\<close> is a 32-bit word: \<open>+\<close>, \<open>-\<close> and \<open>*\<close> wrap around and
  \<open><\<close> compares the unsigned values.
\<close>

type_synonym unsigned = "32 word"

datatype EditType = SKIP | DELETE | INSERT | REPLACE

text \<open>
  \<^verbatim>\<open>std::array<unsigned, 4>\<close>, only ever indexed by an \<^verbatim>\<open>EditType\<close>: one cost for each of
  the four kinds.
\<close>

type_synonym EditCosts = "EditType \<Rightarrow> unsigned"

definition std_edit_costs :: EditCosts where
  "std_edit_costs t = (case t of SKIP \<Rightarrow> 1 | DELETE \<Rightarrow> 10 | INSERT \<Rightarrow> 15 | REPLACE \<Rightarrow> 5)"

definition std_edit_costs2 :: EditCosts where
  "std_edit_costs2 t = (case t of SKIP \<Rightarrow> 1 | DELETE \<Rightarrow> 10 | INSERT \<Rightarrow> 10 | REPLACE \<Rightarrow> 2)"

definition edit_type_names :: "EditType \<Rightarrow> string" where
  "edit_type_names t =
     (case t of SKIP \<Rightarrow> ''SKP'' | DELETE \<Rightarrow> ''DEL'' | INSERT \<Rightarrow> ''INS'' | REPLACE \<Rightarrow> ''REP'')"

record Edit =
  type :: EditType
  from_ch :: char
  to_ch :: char

record Edit2 =
  type2 :: EditType
  ch2 :: char

text \<open>The local struct \<^verbatim>\<open>EditNode\<close> and its two constructors, in both listings.\<close>

record EditNode =
  edit :: Edit
  cost :: unsigned

record EditNode2 =
  edit2 :: Edit2
  cost2 :: unsigned

definition EditNode_default :: EditNode where
  "EditNode_default = \<lparr>edit = \<lparr>type = SKIP, from_ch = CHR 0x00, to_ch = CHR 0x00\<rparr>, cost = 0\<rparr>"

definition EditNode_new :: "EditType \<Rightarrow> char \<Rightarrow> char \<Rightarrow> unsigned \<Rightarrow> EditNode" where
  "EditNode_new t f c n = \<lparr>edit = \<lparr>type = t, from_ch = f, to_ch = c\<rparr>, cost = n\<rparr>"

definition EditNode2_default :: EditNode2 where
  "EditNode2_default = \<lparr>edit2 = \<lparr>type2 = SKIP, ch2 = CHR 0x00\<rparr>, cost2 = 0\<rparr>"

definition EditNode2_new :: "EditType \<Rightarrow> char \<Rightarrow> unsigned \<Rightarrow> EditNode2" where
  "EditNode2_new t c n = \<lparr>edit2 = \<lparr>type2 = t, ch2 = c\<rparr>, cost2 = n\<rparr>"

subsection \<open>Rendering\<close>

definition edit_rep :: "Edit \<Rightarrow> string" where
  "edit_rep e =
     (let rep = edit_type_names (type e);
          rep = (if type e \<noteq> INSERT then rep @ '' '' @ [from_ch e] else rep);
          rep = (if type e \<noteq> DELETE \<and> type e \<noteq> SKIP then rep @ '' '' @ [to_ch e] else rep)
      in rep)"

subsection \<open>Vectors, strings and counted loops\<close>

text \<open>
  Indexing a \<^verbatim>\<open>std::vector\<close> outside its size, or a \<^verbatim>\<open>std::string\<close> beyond its
  terminator, is undefined behaviour in C++; here it is the outcome \<open>Inl OutOfRange\<close>.
  \<open>Inl NullPointer\<close> is the printing of \<^verbatim>\<open>argv[0]\<close> when there is none.
\<close>

datatype error = OutOfRange | NullPointer

text \<open>
  The state of one call: the vector of rows, and a ghost history of the element accesses
  made through \<^verbatim>\<open>edit_matrix[i][j]\<close> (row, column), in program order.  The history takes
  no part in the computation of any value.
\<close>

datatype access = Read nat nat | Write nat nat

record 'n matrix_state =
  edit_matrix :: "'n list list"
  accesses :: "access list"

definition emplace_back :: "'n matrix_state \<Rightarrow> unsigned \<Rightarrow> 'n \<Rightarrow> 'n matrix_state" where
  "emplace_back s count dflt = s\<lparr>edit_matrix := edit_matrix s @ [replicate (unat count) dflt]\<rparr>"

definition matrix_get ::
  "'n matrix_state \<Rightarrow> unsigned \<Rightarrow> unsigned \<Rightarrow> error + ('n \<times> 'n matrix_state)" where
  "matrix_get s i j =
     (if unat i < length (edit_matrix s) \<and> unat j < length (edit_matrix s ! unat i)
      then Inr (edit_matrix s ! unat i ! unat j,
                s\<lparr>accesses := accesses s @ [Read (unat i) (unat j)]\<rparr>)
      else Inl OutOfRange)"

definition matrix_set ::
  "'n matrix_state \<Rightarrow> unsigned \<Rightarrow> unsigned \<Rightarrow> 'n \<Rightarrow> error + 'n matrix_state" where
  "matrix_set s i j v =
     (if unat i < length (edit_matrix s) \<and> unat j < length (edit_matrix s ! unat i)
      then Inr (s\<lparr>edit_matrix := (edit_matrix s)[unat i := (edit_matrix s ! unat i)[unat j := v]],
                 accesses := accesses s @ [Write (unat i) (unat j)]\<rparr>)
      else Inl OutOfRange)"

text \<open>\<^verbatim>\<open>str[i]\<close>: the character at \<open>i\<close>, the terminator at \<open>i = str.length ()\<close>.\<close>

definition char_at :: "string \<Rightarrow> unsigned \<Rightarrow> error + char" where
  "char_at str i =
     (if unat i < length str then Inr (str ! unat i)
      else if unat i = length str then Inr (CHR 0x00)
      else Inl OutOfRange)"

text \<open>\<^verbatim>\<open>for (unsigned i = ...; i < n; i++) body\<close>, stopping at the first failure.\<close>

function for_loop ::
  "unsigned \<Rightarrow> unsigned \<Rightarrow> (unsigned \<Rightarrow> 's \<Rightarrow> error + 's) \<Rightarrow> 's \<Rightarrow> error + 's" where
  "for_loop i n body s =
     (if i < n then (case body i s of Inl e \<Rightarrow> Inl e | Inr s' \<Rightarrow> for_loop (i + 1) n body s')
      else Inr s)"
  by pat_completeness auto
termination
proof (relation "measure (\<lambda>(i, n, body, s). unat n - unat i)")
  show "wf (measure (\<lambda>(i, n, body, s). unat n - unat i))"
    by simp
next
  fix i n :: unsigned and body :: "unsigned \<Rightarrow> 's \<Rightarrow> error + 's" and s x2 :: 's
  assume "i < n"
  then have "unat n - unat (i + 1) < unat n - unat i"
    by unat_arith
  then show "((i + 1, n, body, x2), (i, n, body, s)) \<in> measure (\<lambda>(i, n, body, s). unat n - unat i)"
    by simp
qed

declare for_loop.simps [simp del]

section \<open>First listing: compute_optimal_edits\<close>

text \<open>Lines 96--112: the choice among the three candidates of one cell.\<close>

definition choose_edit ::
  "unsigned \<Rightarrow> unsigned \<Rightarrow> unsigned \<Rightarrow> EditType \<Rightarrow> unsigned \<times> EditType" where
  "choose_edit ins_cost del_cost rep_cost rep_type =
     (if ins_cost < del_cost \<and> ins_cost < rep_cost then (ins_cost, INSERT)
      else if del_cost < rep_cost then (del_cost, DELETE)
      else (rep_cost, rep_type))"

text \<open>Lines 63--64: one row of \<open>from_length + 1\<close> default nodes for each \<open>i < to_length + 1\<close>.\<close>

definition alloc_matrix :: "unsigned \<Rightarrow> unsigned \<Rightarrow> error + EditNode matrix_state" where
  "alloc_matrix from_length to_length =
     for_loop 0 (to_length + 1)
       (\<lambda>i s. Inr (emplace_back s (from_length + 1) EditNode_default))
       \<lparr>edit_matrix = [], accesses = []\<rparr>"

text \<open>Lines 69--73: the body of the loop over the initial row.\<close>

definition first_row_step ::
  "string \<Rightarrow> EditCosts \<Rightarrow> unsigned \<Rightarrow> EditNode matrix_state \<Rightarrow> error + EditNode matrix_state" where
  "first_row_step from costs from_idx s =
     (case char_at from from_idx of
        Inl e \<Rightarrow> Inl e
      | Inr fc \<Rightarrow>
          matrix_set s 0 (from_idx + 1)
            (EditNode_new DELETE fc (CHR 0x00) ((from_idx + 1) * costs DELETE)))"

text \<open>Lines 88--116: the body of the inner loop.\<close>

definition cell_step ::
  "string \<Rightarrow> string \<Rightarrow> EditCosts \<Rightarrow> unsigned \<Rightarrow> unsigned \<Rightarrow> EditNode matrix_state
     \<Rightarrow> error + EditNode matrix_state" where
  "cell_step from to costs to_idx from_idx s =
     (case char_at from from_idx of
        Inl e \<Rightarrow> Inl e
      | Inr fc \<Rightarrow>
     (case char_at to to_idx of
        Inl e \<Rightarrow> Inl e
      | Inr tc \<Rightarrow>
     (let rep_type = (if fc = tc then SKIP else REPLACE) in
     (case matrix_get s (to_idx - 1 + 1) (from_idx + 1) of
        Inl e \<Rightarrow> Inl e
      | Inr (ins_node, s1) \<Rightarrow>
     (case matrix_get s1 (to_idx + 1) (from_idx - 1 + 1) of
        Inl e \<Rightarrow> Inl e
      | Inr (del_node, s2) \<Rightarrow>
     (case matrix_get s2 (to_idx - 1 + 1) (from_idx - 1 + 1) of
        Inl e \<Rightarrow> Inl e
      | Inr (rep_node, s3) \<Rightarrow>
     (let ins_cost = cost ins_node + costs INSERT;
          del_cost = cost del_node + costs DELETE;
          rep_cost = cost rep_node + costs rep_type;
          (cost', type') = choose_edit ins_cost del_cost rep_cost rep_type
      in matrix_set s3 (to_idx + 1) (from_idx + 1) (EditNode_new type' fc tc cost'))))))))"

text \<open>Lines 79--117: the body of the loop over the rows.\<close>

definition row_step ::
  "string \<Rightarrow> string \<Rightarrow> EditCosts \<Rightarrow> unsigned \<Rightarrow> unsigned \<Rightarrow> EditNode matrix_state
     \<Rightarrow> error + EditNode matrix_state" where
  "row_step from to costs from_length to_idx s =
     (case char_at to to_idx of
        Inl e \<Rightarrow> Inl e
      | Inr tc \<Rightarrow>
     (case matrix_set s (to_idx + 1) 0
             (EditNode_new INSERT (CHR 0x00) tc ((to_idx + 1) * costs INSERT)) of
        Inl e \<Rightarrow> Inl e
      | Inr s1 \<Rightarrow> for_loop 0 from_length (cell_step from to costs to_idx) s1))"

text \<open>
  Lines 52--117: the matrix as it stands when the replay starts.  The two lengths are
  converted to \<^verbatim>\<open>unsigned\<close>, which keeps them modulo \<open>2^32\<close>.
\<close>

definition build_matrix :: "string \<Rightarrow> string \<Rightarrow> EditCosts \<Rightarrow> error + EditNode matrix_state" where
  "build_matrix from to costs =
     (let from_length = (of_nat (length from) :: unsigned);
          to_length = (of_nat (length to) :: unsigned)
      in case alloc_matrix from_length to_length of
           Inl e \<Rightarrow> Inl e
         | Inr s0 \<Rightarrow>
        (case for_loop 0 from_length (first_row_step from costs) s0 of
           Inl e \<Rightarrow> Inl e
         | Inr s1 \<Rightarrow> for_loop 0 to_length (row_step from to costs from_length) s1))"

text \<open>
  Lines 123--133: the replay loop.  \<open>None\<close> is a loop that never ends; \<open>result\<close> grows at
  the front, as \<^verbatim>\<open>push_front\<close> does.
\<close>

partial_function (option) replay ::
  "EditNode matrix_state \<Rightarrow> unsigned \<Rightarrow> unsigned \<Rightarrow> Edit list
     \<Rightarrow> (error + Edit list \<times> EditNode matrix_state) option" where
  "replay s from_idx to_idx result =
     (if from_idx > 0 \<or> to_idx > 0 then
        (case matrix_get s to_idx from_idx of
           Inl e \<Rightarrow> Some (Inl e)
         | Inr (node, s') \<Rightarrow>
             replay s'
               (if type (edit node) \<noteq> INSERT then from_idx - 1 else from_idx)
               (if type (edit node) \<noteq> DELETE then to_idx - 1 else to_idx)
               (edit node # result))
      else Some (Inr (result, s)))"

declare replay.simps [code]

text \<open>The whole call, with the final state kept beside the returned list.\<close>

definition run_optimal_edits ::
  "string \<Rightarrow> string \<Rightarrow> EditCosts \<Rightarrow> (error + Edit list \<times> EditNode matrix_state) option" where
  "run_optimal_edits from to costs =
     (case build_matrix from to costs of
        Inl e \<Rightarrow> Some (Inl e)
      | Inr s \<Rightarrow> replay s (of_nat (length from)) (of_nat (length to)) [])"

definition compute_optimal_edits ::
  "string \<Rightarrow> string \<Rightarrow> EditCosts \<Rightarrow> (error + Edit list) option" where
  "compute_optimal_edits from to costs =
     (case run_optimal_edits from to costs of
        None \<Rightarrow> None
      | Some (Inl e) \<Rightarrow> Some (Inl e)
      | Some (Inr (result, s)) \<Rightarrow> Some (Inr result))"

text \<open>Lines 149--152: one line for each operation, written to the standard output.\<close>

primrec print_edits :: "Edit list \<Rightarrow> string" where
  "print_edits [] = []"
| "print_edits (e # edits) = edit_rep e @ [CHR 0x0A] @ print_edits edits"

text \<open>
  \<^verbatim>\<open>main\<close>, lines 139--153: what reaches the two streams, and the exit status.  \<open>argc\<close> is
  the length of \<open>argv\<close>.
\<close>

record program_output =
  stdout :: string
  stderr :: string
  status :: int

definition main :: "string list \<Rightarrow> (error + program_output) option" where
  "main argv =
     (if length argv \<noteq> 3 then
        (case argv of
           [] \<Rightarrow> Some (Inl NullPointer)
         | prog # _ \<Rightarrow>
             Some (Inr \<lparr>stdout = [], stderr = ''Usage: '' @ prog @ '' FROM TO'' @ [CHR 0x0A],
                        status = 1\<rparr>))
      else
        (case compute_optimal_edits (argv ! 1) (argv ! 2) std_edit_costs of
           None \<Rightarrow> None
         | Some (Inl e) \<Rightarrow> Some (Inl e)
         | Some (Inr edits) \<Rightarrow>
             Some (Inr \<lparr>stdout = print_edits edits, stderr = [], status = 0\<rparr>)))"

section \<open>Second listing: compute_optimal_edits\<close>

text \<open>Lines 226--242.\<close>

definition choose_edit2 ::
  "unsigned \<Rightarrow> unsigned \<Rightarrow> unsigned \<Rightarrow> EditType \<Rightarrow> unsigned \<times> EditType" where
  "choose_edit2 ins_cost del_cost rep_cost rep_type =
     (if ins_cost > del_cost \<and> ins_cost > rep_cost then (ins_cost, INSERT)
      else if del_cost > rep_cost then (del_cost, DELETE)
      else (rep_cost, rep_type))"

text \<open>Lines 197--198.\<close>

definition alloc_matrix2 :: "unsigned \<Rightarrow> unsigned \<Rightarrow> error + EditNode2 matrix_state" where
  "alloc_matrix2 from_length to_length =
     for_loop 0 (to_length + 1)
       (\<lambda>i s. Inr (emplace_back s (from_length + 1) EditNode2_default))
       \<lparr>edit_matrix = [], accesses = []\<rparr>"

text \<open>Lines 203--204: the initial row; the node holds the character 0.\<close>

definition first_row_step2 ::
  "EditCosts \<Rightarrow> unsigned \<Rightarrow> EditNode2 matrix_state \<Rightarrow> error + EditNode2 matrix_state" where
  "first_row_step2 costs from_idx s =
     matrix_set s 0 (from_idx + 1)
       (EditNode2_new DELETE (CHR 0x00) ((from_idx + 1) * costs DELETE))"

text \<open>Lines 218--245: the body of the inner loop; the node holds \<^verbatim>\<open>to[to_idx]\<close>.\<close>

definition cell_step2 ::
  "string \<Rightarrow> string \<Rightarrow> EditCosts \<Rightarrow> unsigned \<Rightarrow> unsigned \<Rightarrow> EditNode2 matrix_state
     \<Rightarrow> error + EditNode2 matrix_state" where
  "cell_step2 from to costs to_idx from_idx s =
     (case char_at from from_idx of
        Inl e \<Rightarrow> Inl e
      | Inr fc \<Rightarrow>
     (case char_at to to_idx of
        Inl e \<Rightarrow> Inl e
      | Inr tc \<Rightarrow>
     (let rep_type = (if fc = tc then SKIP else REPLACE) in
     (case matrix_get s (to_idx - 1 + 1) (from_idx + 1) of
        Inl e \<Rightarrow> Inl e
      | Inr (ins_node, s1) \<Rightarrow>
     (case matrix_get s1 (to_idx + 1) (from_idx - 1 + 1) of
        Inl e \<Rightarrow> Inl e
      | Inr (del_node, s2) \<Rightarrow>
     (case matrix_get s2 (to_idx - 1 + 1) (from_idx - 1 + 1) of
        Inl e \<Rightarrow> Inl e
      | Inr (rep_node, s3) \<Rightarrow>
     (let ins_cost = cost2 ins_node + costs INSERT;
          del_cost = cost2 del_node + costs DELETE;
          rep_cost = cost2 rep_node + costs rep_type;
          (cost', type') = choose_edit2 ins_cost del_cost rep_cost rep_type
      in matrix_set s3 (to_idx + 1) (from_idx + 1) (EditNode2_new type' tc cost'))))))))"

text \<open>Lines 210--246: the body of the loop over the rows.\<close>

definition row_step2 ::
  "string \<Rightarrow> string \<Rightarrow> EditCosts \<Rightarrow> unsigned \<Rightarrow> unsigned \<Rightarrow> EditNode2 matrix_state
     \<Rightarrow> error + EditNode2 matrix_state" where
  "row_step2 from to costs from_length to_idx s =
     (case char_at to to_idx of
        Inl e \<Rightarrow> Inl e
      | Inr tc \<Rightarrow>
     (case matrix_set s (to_idx + 1) 0 (EditNode2_new INSERT tc ((to_idx + 1) * costs INSERT)) of
        Inl e \<Rightarrow> Inl e
      | Inr s1 \<Rightarrow> for_loop 0 from_length (cell_step2 from to costs to_idx) s1))"

text \<open>Lines 186--246.\<close>

definition build_matrix2 :: "string \<Rightarrow> string \<Rightarrow> EditCosts \<Rightarrow> error + EditNode2 matrix_state" where
  "build_matrix2 from to costs =
     (let from_length = (of_nat (length from) :: unsigned);
          to_length = (of_nat (length to) :: unsigned)
      in case alloc_matrix2 from_length to_length of
           Inl e \<Rightarrow> Inl e
         | Inr s0 \<Rightarrow>
        (case for_loop 0 from_length (first_row_step2 costs) s0 of
           Inl e \<Rightarrow> Inl e
         | Inr s1 \<Rightarrow> for_loop 0 to_length (row_step2 from to costs from_length) s1))"

text \<open>Lines 252--262: the replay loop of the second listing reads at \<open>(to_idx + 1, from_idx + 1)\<close>.\<close>

partial_function (option) replay2 ::
  "EditNode2 matrix_state \<Rightarrow> unsigned \<Rightarrow> unsigned \<Rightarrow> Edit2 list
     \<Rightarrow> (error + Edit2 list \<times> EditNode2 matrix_state) option" where
  "replay2 s from_idx to_idx result =
     (if from_idx > 0 \<or> to_idx > 0 then
        (case matrix_get s (to_idx + 1) (from_idx + 1) of
           Inl e \<Rightarrow> Some (Inl e)
         | Inr (node, s') \<Rightarrow>
             replay2 s'
               (if type2 (edit2 node) \<noteq> INSERT then from_idx - 1 else from_idx)
               (if type2 (edit2 node) \<noteq> DELETE then to_idx - 1 else to_idx)
               (edit2 node # result))
      else Some (Inr (result, s)))"

declare replay2.simps [code]

definition run_optimal_edits2 ::
  "string \<Rightarrow> string \<Rightarrow> EditCosts \<Rightarrow> (error + Edit2 list \<times> EditNode2 matrix_state) option" where
  "run_optimal_edits2 from to costs =
     (case build_matrix2 from to costs of
        Inl e \<Rightarrow> Some (Inl e)
      | Inr s \<Rightarrow> replay2 s (of_nat (length from)) (of_nat (length to)) [])"

definition compute_optimal_edits2 ::
  "string \<Rightarrow> string \<Rightarrow> EditCosts \<Rightarrow> (error + Edit2 list) option" where
  "compute_optimal_edits2 from to costs =
     (case run_optimal_edits2 from to costs of
        None \<Rightarrow> None
      | Some (Inl e) \<Rightarrow> Some (Inl e)
      | Some (Inr (result, s)) \<Rightarrow> Some (Inr result))"

text \<open>Lines 278--281: the kind's name, a blank and the one character of each operation.\<close>

primrec print_edits2 :: "Edit2 list \<Rightarrow> string" where
  "print_edits2 [] = []"
| "print_edits2 (e # edits) =
     edit_type_names (type2 e) @ '' '' @ [ch2 e] @ [CHR 0x0A] @ print_edits2 edits"

text \<open>\<^verbatim>\<open>main\<close> of the second listing, lines 268--282.\<close>

definition main2 :: "string list \<Rightarrow> (error + program_output) option" where
  "main2 argv =
     (if length argv \<noteq> 3 then
        (case argv of
           [] \<Rightarrow> Some (Inl NullPointer)
         | prog # _ \<Rightarrow>
             Some (Inr \<lparr>stdout = [], stderr = ''Usage: '' @ prog @ '' FROM TO'' @ [CHR 0x0A],
                        status = 1\<rparr>))
      else
        (case compute_optimal_edits2 (argv ! 1) (argv ! 2) std_edit_costs2 of
           None \<Rightarrow> None
         | Some (Inl e) \<Rightarrow> Some (Inl e)
         | Some (Inr edits) \<Rightarrow>
             Some (Inr \<lparr>stdout = print_edits2 edits, stderr = [], status = 0\<rparr>)))"

section \<open>Notions used in the proofs\<close>

text \<open>
  \<open>upd2\<close> is the assignment \<^verbatim>\<open>M[i][j] = v\<close> on a list of rows; \<open>grid M rows cols\<close> says that
  \<open>M\<close> has \<open>rows\<close> rows of \<open>cols\<close> nodes each.
\<close>

definition upd2 :: "'n list list \<Rightarrow> nat \<Rightarrow> nat \<Rightarrow> 'n \<Rightarrow> 'n list list" where
  "upd2 M i j v = M[i := (M ! i)[j := v]]"

definition grid :: "'n list list \<Rightarrow> nat \<Rightarrow> nat \<Rightarrow> bool" where
  "grid M rows cols \<longleftrightarrow> length M = rows \<and> (\<forall>i<rows. length (M ! i) = cols)"

text \<open>
  The accesses that one cell of the recurrence, one row, and the whole construction make, in
  the order of the source's loops.
\<close>

definition cell_accesses :: "nat \<Rightarrow> nat \<Rightarrow> access list" where
  "cell_accesses i j = [Read i (Suc j), Read (Suc i) j, Read i j, Write (Suc i) (Suc j)]"

definition row_accesses :: "nat \<Rightarrow> nat \<Rightarrow> access list" where
  "row_accesses m i = Write (Suc i) 0 # concat (map (cell_accesses i) [0..<m])"

definition build_accesses :: "nat \<Rightarrow> nat \<Rightarrow> access list" where
  "build_accesses m n = map (\<lambda>j. Write 0 (Suc j)) [0..<m] @ concat (map (row_accesses m) [0..<n])"

text \<open>
  \<open>recurrence_node\<close> is the node the recurrence stores in the cell \<open>(i + 1, j + 1)\<close> of \<open>M\<close>;
  \<open>filled from to costs M\<close> says that \<open>M\<close> is a matrix as the construction leaves it: the
  default node in \<open>(0, 0)\<close>, the deletions in the initial row, the insertions in the first
  column, and the node of the recurrence everywhere else.
\<close>

definition recurrence_node ::
  "string \<Rightarrow> string \<Rightarrow> EditCosts \<Rightarrow> EditNode list list \<Rightarrow> nat \<Rightarrow> nat \<Rightarrow> EditNode" where
  "recurrence_node from to costs M i j =
     (let rep_type = (if from ! j = to ! i then SKIP else REPLACE);
          (c, t) = choose_edit (cost (M ! i ! Suc j) + costs INSERT)
                     (cost (M ! Suc i ! j) + costs DELETE)
                     (cost (M ! i ! j) + costs rep_type) rep_type
      in EditNode_new t (from ! j) (to ! i) c)"

definition first_row_ok :: "string \<Rightarrow> EditCosts \<Rightarrow> EditNode list list \<Rightarrow> nat \<Rightarrow> bool" where
  "first_row_ok from costs M k \<longleftrightarrow>
     M ! 0 ! 0 = EditNode_default \<and>
     (\<forall>j<k. M ! 0 ! Suc j = EditNode_new DELETE (from ! j) (CHR 0x00) (of_nat (Suc j) * costs DELETE))"

definition row_ok ::
  "string \<Rightarrow> string \<Rightarrow> EditCosts \<Rightarrow> EditNode list list \<Rightarrow> nat \<Rightarrow> nat \<Rightarrow> bool" where
  "row_ok from to costs M i k \<longleftrightarrow>
     M ! Suc i ! 0 = EditNode_new INSERT (CHR 0x00) (to ! i) (of_nat (Suc i) * costs INSERT) \<and>
     (\<forall>j<k. M ! Suc i ! Suc j = recurrence_node from to costs M i j)"

definition filled :: "string \<Rightarrow> string \<Rightarrow> EditCosts \<Rightarrow> EditNode list list \<Rightarrow> bool" where
  "filled from to costs M \<longleftrightarrow>
     grid M (Suc (length to)) (Suc (length from)) \<and>
     first_row_ok from costs M (length from) \<and>
     (\<forall>i<length to. row_ok from to costs M i (length from))"

text \<open>The same notions for the second listing.\<close>

definition recurrence_node2 ::
  "string \<Rightarrow> string \<Rightarrow> EditCosts \<Rightarrow> EditNode2 list list \<Rightarrow> nat \<Rightarrow> nat \<Rightarrow> EditNode2" where
  "recurrence_node2 from to costs M i j =
     (let rep_type = (if from ! j = to ! i then SKIP else REPLACE);
          (c, t) = choose_edit2 (cost2 (M ! i ! Suc j) + costs INSERT)
                     (cost2 (M ! Suc i ! j) + costs DELETE)
                     (cost2 (M ! i ! j) + costs rep_type) rep_type
      in EditNode2_new t (to ! i) c)"

definition first_row_ok2 :: "EditCosts \<Rightarrow> EditNode2 list list \<Rightarrow> nat \<Rightarrow> bool" where
  "first_row_ok2 costs M k \<longleftrightarrow>
     M ! 0 ! 0 = EditNode2_default \<and>
     (\<forall>j<k. M ! 0 ! Suc j = EditNode2_new DELETE (CHR 0x00) (of_nat (Suc j) * costs DELETE))"

definition row_ok2 ::
  "string \<Rightarrow> string \<Rightarrow> EditCosts \<Rightarrow> EditNode2 list list \<Rightarrow> nat \<Rightarrow> nat \<Rightarrow> bool" where
  "row_ok2 from to costs M i k \<longleftrightarrow>
     M ! Suc i ! 0 = EditNode2_new INSERT (to ! i) (of_nat (Suc i) * costs INSERT) \<and>
     (\<forall>j<k. M ! Suc i ! Suc j = recurrence_node2 from to costs M i j)"

definition filled2 :: "string \<Rightarrow> string \<Rightarrow> EditCosts \<Rightarrow> EditNode2 list list \<Rightarrow> bool" where
  "filled2 from to costs M \<longleftrightarrow>
     grid M (Suc (length to)) (Suc (length from)) \<and>
     first_row_ok2 costs M (length from) \<and>
     (\<forall>i<length to. row_ok2 from to costs M i (length from))"

text \<open>
  The access history: \<open>within rows cols\<close> bounds the row and column of an access;
  \<open>written_before_read W t\<close> says that every read in \<open>t\<close> is of a cell in \<open>W\<close> or of a
  cell assigned earlier in \<open>t\<close>.
\<close>

fun written_before_read :: "(nat \<times> nat) set \<Rightarrow> access list \<Rightarrow> bool" where
  "written_before_read W [] = True"
| "written_before_read W (Write r c # t) = written_before_read (insert (r, c) W) t"
| "written_before_read W (Read r c # t) = ((r, c) \<in> W \<and> written_before_read W t)"

fun within :: "nat \<Rightarrow> nat \<Rightarrow> access \<Rightarrow> bool" where
  "within rows cols (Read r c) = (r \<le> rows \<and> c \<le> cols)"
| "within rows cols (Write r c) = (r \<le> rows \<and> c \<le> cols)"

definition writes :: "access list \<Rightarrow> (nat \<times> nat) set" where
  "writes t = {(r, c). Write r c \<in> set t}"

text \<open>
  The costs of a matrix as a function of row and column, with the recurrence written with
  the selection \<open>sel\<close> (\<open>min\<close> for the first listing, \<open>max\<close> for the second).
\<close>

definition cost_grid ::
  "(unsigned \<Rightarrow> unsigned \<Rightarrow> unsigned) \<Rightarrow> EditCosts \<Rightarrow> (nat \<Rightarrow> nat \<Rightarrow> EditType)
     \<Rightarrow> (nat \<Rightarrow> nat \<Rightarrow> unsigned) \<Rightarrow> nat \<Rightarrow> nat \<Rightarrow> bool" where
  "cost_grid sel costs rt C n m \<longleftrightarrow>
     (\<forall>j\<le>m. C 0 j = of_nat j * costs DELETE) \<and>
     (\<forall>i\<le>n. C i 0 = of_nat i * costs INSERT) \<and>
     (\<forall>i<n. \<forall>j<m. C (Suc i) (Suc j) =
        sel (C i (Suc j) + costs INSERT) (sel (C (Suc i) j + costs DELETE) (C i j + costs (rt i j))))"

section \<open>Proofs\<close>

subsection \<open>Counted loops\<close>

lemma unat_succ_below: "i < (n :: unsigned) \<Longrightarrow> unat (i + 1) = Suc (unat i)"
  by unat_arith

lemma for_loop_from:
  assumes step: "\<And>k s. k < unat n \<Longrightarrow> P k s \<Longrightarrow> \<exists>s'. body (of_nat k) s = Inr s' \<and> P (Suc k) s'"
  shows "i \<le> n \<Longrightarrow> P (unat i) s \<Longrightarrow> \<exists>s'. for_loop i n body s = Inr s' \<and> P (unat n) s'"
proof (induction "unat n - unat i" arbitrary: i s rule: less_induct)
  case less
  show ?case
  proof (cases "i < n")
    case True
    then have lt: "unat i < unat n"
      by (simp add: word_less_nat_alt)
    from step[OF lt] less.prems(2) obtain s1 where s1: "body i s = Inr s1" "P (Suc (unat i)) s1"
      by auto
    have "i + 1 \<le> n"
      using True by (rule inc_le)
    moreover have "P (unat (i + 1)) s1"
      using s1(2) True by (simp add: unat_succ_below)
    moreover have "unat n - unat (i + 1) < unat n - unat i"
      using True lt by (simp add: unat_succ_below)
    ultimately obtain s' where "for_loop (i + 1) n body s1 = Inr s'" "P (unat n) s'"
      using less.hyps by blast
    then show ?thesis
      using True s1(1) by (subst for_loop.simps) auto
  next
    case False
    with less.prems(1) have "i = n"
      by simp
    then show ?thesis
      using less.prems(2) by (subst for_loop.simps) simp
  qed
qed

lemma for_loop_invariant:
  assumes "P 0 s"
    and "\<And>k s. k < unat n \<Longrightarrow> P k s \<Longrightarrow> \<exists>s'. body (of_nat k) s = Inr s' \<and> P (Suc k) s'"
  shows "\<exists>s'. for_loop 0 n body s = Inr s' \<and> P (unat n) s'"
  using for_loop_from[of n P body 0 s] assms by simp

subsection \<open>Grids and their updates\<close>

lemma length_upd2_nth: "length (upd2 M i j v ! a) = length (M ! a)"
  by (cases "i < length M"; cases "a = i") (simp_all add: upd2_def list_update_beyond)

lemma grid_upd2: "grid (upd2 M i j v) rows cols = grid M rows cols"
  by (simp add: grid_def length_upd2_nth) (simp add: upd2_def)

lemma nth_upd2:
  "grid M rows cols \<Longrightarrow> i < rows \<Longrightarrow> j < cols \<Longrightarrow>
     upd2 M i j v ! a ! b = (if a = i \<and> b = j then v else M ! a ! b)"
  by (auto simp: grid_def upd2_def nth_list_update)

lemma matrix_get_grid:
  "grid (edit_matrix s) rows cols \<Longrightarrow> unat i < rows \<Longrightarrow> unat j < cols \<Longrightarrow>
     matrix_get s i j =
       Inr (edit_matrix s ! unat i ! unat j, s\<lparr>accesses := accesses s @ [Read (unat i) (unat j)]\<rparr>)"
  by (simp add: matrix_get_def grid_def)

lemma matrix_set_grid:
  "grid (edit_matrix s) rows cols \<Longrightarrow> unat i < rows \<Longrightarrow> unat j < cols \<Longrightarrow>
     matrix_set s i j v =
       Inr (s\<lparr>edit_matrix := upd2 (edit_matrix s) (unat i) (unat j) v,
               accesses := accesses s @ [Write (unat i) (unat j)]\<rparr>)"
  by (simp add: matrix_set_def grid_def upd2_def)

lemma unat_of_nat32: "k < 2 ^ 32 \<Longrightarrow> unat (of_nat k :: unsigned) = k"
  by (simp add: unat_of_nat)

lemma unat_of_nat_plus1: "Suc k < 2 ^ 32 \<Longrightarrow> unat (of_nat k + 1 :: unsigned) = Suc k"
  using unat_of_nat32[of "Suc k"] by (simp add: add.commute)

lemma char_at_in: "k < length str \<Longrightarrow> length str < 2 ^ 32 \<Longrightarrow> char_at str (of_nat k) = Inr (str ! k)"
  by (simp add: char_at_def unat_of_nat32)

subsection \<open>The matrix of the first listing\<close>

lemma recurrence_node_cong:
  "M' ! i ! Suc j = M ! i ! Suc j \<Longrightarrow> M' ! Suc i ! j = M ! Suc i ! j \<Longrightarrow> M' ! i ! j = M ! i ! j \<Longrightarrow>
     recurrence_node from to costs M' i j = recurrence_node from to costs M i j"
  by (simp add: recurrence_node_def)

lemma cell_step_grid:
  assumes g: "grid (edit_matrix s) (Suc n) (Suc m)"
    and n: "n = length to" "Suc n < 2 ^ 32"
    and m: "m = length from" "Suc m < 2 ^ 32"
    and i: "i < n" and j: "j < m"
  shows "cell_step from to costs (of_nat i) (of_nat j) s =
           Inr (s\<lparr>edit_matrix := upd2 (edit_matrix s) (Suc i) (Suc j)
                                   (recurrence_node from to costs (edit_matrix s) i j),
                   accesses := accesses s @ cell_accesses i j\<rparr>)"
proof -
  have ui: "unat (of_nat i :: unsigned) = i" "unat (of_nat i + 1 :: unsigned) = Suc i"
    using i n by (simp_all add: unat_of_nat32 unat_of_nat_plus1)
  have uj: "unat (of_nat j :: unsigned) = j" "unat (of_nat j + 1 :: unsigned) = Suc j"
    using j m by (simp_all add: unat_of_nat32 unat_of_nat_plus1)
  have c: "char_at from (of_nat j) = Inr (from ! j)" "char_at to (of_nat i) = Inr (to ! i)"
    using i j n m by (simp_all add: char_at_in)
  show ?thesis
    using g i j
    by (simp add: cell_step_def c matrix_get_grid[where rows = "Suc n" and cols = "Suc m"]
        matrix_set_grid[where rows = "Suc n" and cols = "Suc m"] ui uj Let_def
        recurrence_node_def cell_accesses_def split: prod.split)
qed

lemma first_row_ok_upd2_other:
  "grid M rows cols \<Longrightarrow> a < rows \<Longrightarrow> b < cols \<Longrightarrow> 0 < a \<Longrightarrow>
     first_row_ok from costs (upd2 M a b v) k = first_row_ok from costs M k"
  by (simp add: first_row_ok_def nth_upd2)

lemma first_row_ok_upd2_next:
  "grid M rows cols \<Longrightarrow> 0 < rows \<Longrightarrow> Suc k < cols \<Longrightarrow> first_row_ok from costs M k \<Longrightarrow>
     first_row_ok from costs
       (upd2 M 0 (Suc k) (EditNode_new DELETE (from ! k) (CHR 0x00) (of_nat (Suc k) * costs DELETE)))
       (Suc k)"
  by (auto simp: first_row_ok_def nth_upd2 less_Suc_eq)

lemma row_ok_upd2_below:
  "grid M rows cols \<Longrightarrow> a < rows \<Longrightarrow> b < cols \<Longrightarrow> Suc i < a \<Longrightarrow>
     row_ok from to costs (upd2 M a b v) i k = row_ok from to costs M i k"
  by (simp add: row_ok_def nth_upd2 recurrence_node_def)

lemma row_ok_upd2_start:
  "grid M rows cols \<Longrightarrow> Suc i < rows \<Longrightarrow> 0 < cols \<Longrightarrow>
     row_ok from to costs
       (upd2 M (Suc i) 0 (EditNode_new INSERT (CHR 0x00) (to ! i) (of_nat (Suc i) * costs INSERT))) i 0"
  by (simp add: row_ok_def nth_upd2)

lemma row_ok_upd2_next:
  assumes "grid M rows cols" "Suc i < rows" "Suc k < cols" "row_ok from to costs M i k"
  shows "row_ok from to costs (upd2 M (Suc i) (Suc k) (recurrence_node from to costs M i k)) i (Suc k)"
proof -
  let ?M' = "upd2 M (Suc i) (Suc k) (recurrence_node from to costs M i k)"
  have same: "recurrence_node from to costs ?M' i j = recurrence_node from to costs M i j" if "j \<le> k" for j
    using assms(1-3) that by (intro recurrence_node_cong) (simp_all add: nth_upd2)
  show ?thesis
    using assms same by (auto simp: row_ok_def nth_upd2 less_Suc_eq)
qed

lemma alloc_matrix_ok:
  assumes "Suc m < 2 ^ 32" "Suc n < 2 ^ 32"
  shows "alloc_matrix (of_nat m) (of_nat n) =
           Inr \<lparr>edit_matrix = replicate (Suc n) (replicate (Suc m) EditNode_default), accesses = []\<rparr>"
proof -
  let ?P = "\<lambda>k s. s = \<lparr>edit_matrix = replicate k (replicate (Suc m) EditNode_default), accesses = []\<rparr>"
  have "\<exists>s'. for_loop 0 (of_nat n + 1)
               (\<lambda>i s. Inr (emplace_back s (of_nat m + 1) EditNode_default))
               \<lparr>edit_matrix = [], accesses = []\<rparr> = Inr s' \<and> ?P (unat (of_nat n + 1 :: unsigned)) s'"
    using assms(1)
    by (intro for_loop_invariant) (simp_all add: emplace_back_def unat_of_nat_plus1 replicate_append_same)
  then show ?thesis
    using assms(2) by (simp add: alloc_matrix_def unat_of_nat_plus1)
qed

lemma grid_replicate: "grid (replicate rows (replicate cols v)) rows cols"
  by (simp add: grid_def)

lemma first_row_loop:
  assumes m: "Suc (length from) < 2 ^ 32"
    and g: "grid (edit_matrix s) (Suc n) (Suc (length from))"
    and z: "edit_matrix s ! 0 ! 0 = EditNode_default"
  shows "\<exists>s'. for_loop 0 (of_nat (length from)) (first_row_step from costs) s = Inr s' \<and>
               grid (edit_matrix s') (Suc n) (Suc (length from)) \<and>
               first_row_ok from costs (edit_matrix s') (length from) \<and>
               accesses s' = accesses s @ map (\<lambda>j. Write 0 (Suc j)) [0..<length from]"
proof -
  let ?m = "length from"
  let ?P = "\<lambda>k (s' :: EditNode matrix_state). grid (edit_matrix s') (Suc n) (Suc ?m) \<and> first_row_ok from costs (edit_matrix s') k \<and>
                     accesses s' = accesses s @ map (\<lambda>j. Write 0 (Suc j)) [0..<k]"
  have um: "unat (of_nat ?m :: unsigned) = ?m"
    using m by (simp add: unat_of_nat32)
  have "\<exists>s'. for_loop 0 (of_nat ?m) (first_row_step from costs) s = Inr s' \<and> ?P (unat (of_nat ?m :: unsigned)) s'"
  proof (rule for_loop_invariant)
    show "?P 0 s"
      using g z by (simp add: first_row_ok_def)
  next
    fix k and s1 :: "EditNode matrix_state"
    assume k: "k < unat (of_nat ?m :: unsigned)" and P: "?P k s1"
    from k um have k': "k < ?m" by simp
    have uk: "unat (of_nat k + 1 :: unsigned) = Suc k"
      using k' m by (simp add: unat_of_nat_plus1)
    have c: "char_at from (of_nat k) = Inr (from ! k)"
      using k' m by (simp add: char_at_in)
    have cost_eq: "(of_nat k + 1) * costs DELETE = of_nat (Suc k) * costs DELETE"
      by (simp add: add.commute)
    show "\<exists>s'. first_row_step from costs (of_nat k) s1 = Inr s' \<and> ?P (Suc k) s'"
      using P k'
      by (simp add: first_row_step_def c matrix_set_grid[where rows = "Suc n" and cols = "Suc ?m"] uk
          grid_upd2 first_row_ok_upd2_next[where rows = "Suc n" and cols = "Suc ?m"] cost_eq
          del: of_nat_Suc)
  qed
  then show ?thesis
    by (simp add: um)
qed

lemma cell_loop:
  fixes s :: "EditNode matrix_state"
  assumes m: "Suc (length from) < 2 ^ 32" and n: "Suc (length to) < 2 ^ 32"
    and i: "i < length to"
    and g: "grid (edit_matrix s) (Suc (length to)) (Suc (length from))"
    and r0: "first_row_ok from costs (edit_matrix s) (length from)"
    and rs: "\<forall>i'<i. row_ok from to costs (edit_matrix s) i' (length from)"
    and ri: "row_ok from to costs (edit_matrix s) i 0"
  shows "\<exists>s'. for_loop 0 (of_nat (length from)) (cell_step from to costs (of_nat i)) s = Inr s' \<and>
               grid (edit_matrix s') (Suc (length to)) (Suc (length from)) \<and>
               first_row_ok from costs (edit_matrix s') (length from) \<and>
               (\<forall>i'<i. row_ok from to costs (edit_matrix s') i' (length from)) \<and>
               row_ok from to costs (edit_matrix s') i (length from) \<and>
               accesses s' = accesses s @ concat (map (cell_accesses i) [0..<length from])"
proof -
  let ?m = "length from" and ?n = "length to"
  let ?Q = "\<lambda>k (s' :: EditNode matrix_state).
              grid (edit_matrix s') (Suc ?n) (Suc ?m) \<and>
              first_row_ok from costs (edit_matrix s') ?m \<and>
              (\<forall>i'<i. row_ok from to costs (edit_matrix s') i' ?m) \<and>
              row_ok from to costs (edit_matrix s') i k \<and>
              accesses s' = accesses s @ concat (map (cell_accesses i) [0..<k])"
  have um: "unat (of_nat ?m :: unsigned) = ?m"
    using m by (simp add: unat_of_nat32)
  have "\<exists>s'. for_loop 0 (of_nat ?m) (cell_step from to costs (of_nat i)) s = Inr s' \<and>
             ?Q (unat (of_nat ?m :: unsigned)) s'"
  proof (rule for_loop_invariant)
    show "?Q 0 s"
      using g r0 rs ri by simp
  next
    fix k and s1 :: "EditNode matrix_state"
    assume k: "k < unat (of_nat ?m :: unsigned)" and Q: "?Q k s1"
    from k um have k': "k < ?m" by simp
    let ?M = "edit_matrix s1"
    let ?s2 = "s1\<lparr>edit_matrix := upd2 ?M (Suc i) (Suc k) (recurrence_node from to costs ?M i k),
                   accesses := accesses s1 @ cell_accesses i k\<rparr>"
    from Q have g1: "grid ?M (Suc ?n) (Suc ?m)" by simp
    have step: "cell_step from to costs (of_nat i) (of_nat k) s1 = Inr ?s2"
      using g1 n m i k' by (intro cell_step_grid) simp_all
    have "grid (edit_matrix ?s2) (Suc ?n) (Suc ?m)"
      using g1 by (simp add: grid_upd2)
    moreover have "first_row_ok from costs (edit_matrix ?s2) ?m"
      using Q i k' by (simp add: first_row_ok_upd2_other[OF g1])
    moreover have "\<forall>i'<i. row_ok from to costs (edit_matrix ?s2) i' ?m"
      using Q i k' by (simp add: row_ok_upd2_below[OF g1])
    moreover have "row_ok from to costs (edit_matrix ?s2) i (Suc k)"
      using Q i k' row_ok_upd2_next[OF g1, of i k "from" "to" costs] by simp
    moreover have "accesses ?s2 = accesses s @ concat (map (cell_accesses i) [0..<Suc k])"
      using Q by simp
    ultimately have "?Q (Suc k) ?s2"
      by blast
    with step show "\<exists>s'. cell_step from to costs (of_nat i) (of_nat k) s1 = Inr s' \<and> ?Q (Suc k) s'"
      by blast
  qed
  then show ?thesis
    by (simp add: um)
qed

lemma row_loop:
  fixes s :: "EditNode matrix_state"
  assumes m: "Suc (length from) < 2 ^ 32" and n: "Suc (length to) < 2 ^ 32"
    and g: "grid (edit_matrix s) (Suc (length to)) (Suc (length from))"
    and r0: "first_row_ok from costs (edit_matrix s) (length from)"
  shows "\<exists>s'. for_loop 0 (of_nat (length to)) (row_step from to costs (of_nat (length from))) s = Inr s' \<and>
               filled from to costs (edit_matrix s') \<and>
               accesses s' = accesses s @ concat (map (row_accesses (length from)) [0..<length to])"
proof -
  let ?m = "length from" and ?n = "length to"
  let ?P = "\<lambda>k (s' :: EditNode matrix_state).
              grid (edit_matrix s') (Suc ?n) (Suc ?m) \<and>
              first_row_ok from costs (edit_matrix s') ?m \<and>
              (\<forall>i'<k. row_ok from to costs (edit_matrix s') i' ?m) \<and>
              accesses s' = accesses s @ concat (map (row_accesses ?m) [0..<k])"
  have un: "unat (of_nat ?n :: unsigned) = ?n"
    using n by (simp add: unat_of_nat32)
  have "\<exists>s'. for_loop 0 (of_nat ?n) (row_step from to costs (of_nat ?m)) s = Inr s' \<and>
             ?P (unat (of_nat ?n :: unsigned)) s'"
  proof (rule for_loop_invariant)
    show "?P 0 s"
      using g r0 by simp
  next
    fix i and s1 :: "EditNode matrix_state"
    assume i: "i < unat (of_nat ?n :: unsigned)" and P: "?P i s1"
    from i un have i': "i < ?n" by simp
    let ?M = "edit_matrix s1"
    let ?v = "EditNode_new INSERT (CHR 0x00) (to ! i) (of_nat (Suc i) * costs INSERT)"
    let ?s2 = "s1\<lparr>edit_matrix := upd2 ?M (Suc i) 0 ?v, accesses := accesses s1 @ [Write (Suc i) 0]\<rparr>"
    from P have g1: "grid ?M (Suc ?n) (Suc ?m)" by simp
    have ui: "unat (of_nat i + 1 :: unsigned) = Suc i"
      using i' n by (simp add: unat_of_nat_plus1)
    have c: "char_at to (of_nat i) = Inr (to ! i)"
      using i' n by (simp add: char_at_in)
    have cost_eq: "(of_nat i + 1) * costs INSERT = of_nat (Suc i) * costs INSERT"
      by (simp add: add.commute)
    have set: "matrix_set s1 (of_nat i + 1) 0 (EditNode_new INSERT (CHR 0x00) (to ! i) ((of_nat i + 1) * costs INSERT))
                 = Inr ?s2"
      using g1 i' unfolding cost_eq
      by (subst matrix_set_grid[where rows = "Suc ?n" and cols = "Suc ?m"]) (simp_all add: ui)
    have g2: "grid (edit_matrix ?s2) (Suc ?n) (Suc ?m)"
      using g1 by (simp add: grid_upd2)
    have "first_row_ok from costs (edit_matrix ?s2) ?m"
      using P i' by (simp add: first_row_ok_upd2_other[OF g1])
    moreover have "\<forall>i'<i. row_ok from to costs (edit_matrix ?s2) i' ?m"
      using P i' by (simp add: row_ok_upd2_below[OF g1])
    moreover have "row_ok from to costs (edit_matrix ?s2) i 0"
      using i' row_ok_upd2_start[OF g1, of i "from" "to" costs] by simp
    ultimately obtain s3 where s3:
      "for_loop 0 (of_nat ?m) (cell_step from to costs (of_nat i)) ?s2 = Inr s3"
      "grid (edit_matrix s3) (Suc ?n) (Suc ?m)"
      "first_row_ok from costs (edit_matrix s3) ?m"
      "\<forall>i'<i. row_ok from to costs (edit_matrix s3) i' ?m"
      "row_ok from to costs (edit_matrix s3) i ?m"
      "accesses s3 = accesses ?s2 @ concat (map (cell_accesses i) [0..<?m])"
      using cell_loop[OF m n i' g2] by blast
    have "row_step from to costs (of_nat ?m) (of_nat i) s1 = Inr s3"
      by (simp add: row_step_def c set s3(1) del: of_nat_Suc)
    moreover have "?P (Suc i) s3"
      using s3 P by (auto simp: less_Suc_eq row_accesses_def)
    ultimately show "\<exists>s'. row_step from to costs (of_nat ?m) (of_nat i) s1 = Inr s' \<and> ?P (Suc i) s'"
      by blast
  qed
  then show ?thesis
    by (auto simp: filled_def un)
qed

lemma build_matrix_filled:
  assumes m: "Suc (length from) < 2 ^ 32" and n: "Suc (length to) < 2 ^ 32"
  shows "\<exists>s. build_matrix from to costs = Inr s \<and> filled from to costs (edit_matrix s) \<and>
             accesses s = build_accesses (length from) (length to)"
proof -
  let ?s0 = "\<lparr>edit_matrix = replicate (Suc (length to)) (replicate (Suc (length from)) EditNode_default),
              accesses = []\<rparr>"
  have a: "alloc_matrix (of_nat (length from)) (of_nat (length to)) = Inr ?s0"
    using m n by (rule alloc_matrix_ok)
  have g0: "grid (edit_matrix ?s0) (Suc (length to)) (Suc (length from))"
    by (simp add: grid_replicate del: replicate.simps)
  obtain s1 where s1: "for_loop 0 (of_nat (length from)) (first_row_step from costs) ?s0 = Inr s1"
    "grid (edit_matrix s1) (Suc (length to)) (Suc (length from))"
    "first_row_ok from costs (edit_matrix s1) (length from)"
    "accesses s1 = map (\<lambda>j. Write 0 (Suc j)) [0..<length from]"
    using first_row_loop[OF m g0, of costs] by auto
  obtain s2 where s2: "for_loop 0 (of_nat (length to)) (row_step from to costs (of_nat (length from))) s1 = Inr s2"
    "filled from to costs (edit_matrix s2)"
    "accesses s2 = accesses s1 @ concat (map (row_accesses (length from)) [0..<length to])"
    using row_loop[OF m n s1(2,3)] by blast
  show ?thesis
    using a s1 s2 by (simp add: build_matrix_def build_accesses_def)
qed

lemma filled_grid: "filled from to costs M \<Longrightarrow> grid M (Suc (length to)) (Suc (length from))"
  by (simp add: filled_def)

lemma filled_first_row:
  "filled from to costs M \<Longrightarrow> j < length from \<Longrightarrow>
     M ! 0 ! Suc j = EditNode_new DELETE (from ! j) (CHR 0x00) (of_nat (Suc j) * costs DELETE)"
  by (simp add: filled_def first_row_ok_def)

lemma filled_origin: "filled from to costs M \<Longrightarrow> M ! 0 ! 0 = EditNode_default"
  by (simp add: filled_def first_row_ok_def)

lemma filled_first_column:
  "filled from to costs M \<Longrightarrow> i < length to \<Longrightarrow>
     M ! Suc i ! 0 = EditNode_new INSERT (CHR 0x00) (to ! i) (of_nat (Suc i) * costs INSERT)"
  by (simp add: filled_def row_ok_def)

lemma filled_inner:
  "filled from to costs M \<Longrightarrow> i < length to \<Longrightarrow> j < length from \<Longrightarrow>
     M ! Suc i ! Suc j = recurrence_node from to costs M i j"
  by (simp add: filled_def row_ok_def)

lemma filled_first_row_cost:
  "filled from to costs M \<Longrightarrow> j \<le> length from \<Longrightarrow> cost (M ! 0 ! j) = of_nat j * costs DELETE"
  by (cases j) (simp_all add: filled_origin filled_first_row EditNode_default_def EditNode_new_def)

lemma filled_first_column_cost:
  "filled from to costs M \<Longrightarrow> i \<le> length to \<Longrightarrow> cost (M ! i ! 0) = of_nat i * costs INSERT"
  by (cases i) (simp_all add: filled_origin filled_first_column EditNode_default_def EditNode_new_def)

lemma type_recurrence_node:
  "type (edit (recurrence_node from to costs M i j)) =
     snd (choose_edit (cost (M ! i ! Suc j) + costs INSERT) (cost (M ! Suc i ! j) + costs DELETE)
            (cost (M ! i ! j) + costs (if from ! j = to ! i then SKIP else REPLACE))
            (if from ! j = to ! i then SKIP else REPLACE))"
  by (simp add: recurrence_node_def EditNode_new_def Let_def split: prod.split)

lemma cost_recurrence_node:
  "cost (recurrence_node from to costs M i j) =
     fst (choose_edit (cost (M ! i ! Suc j) + costs INSERT) (cost (M ! Suc i ! j) + costs DELETE)
            (cost (M ! i ! j) + costs (if from ! j = to ! i then SKIP else REPLACE))
            (if from ! j = to ! i then SKIP else REPLACE))"
  by (simp add: recurrence_node_def EditNode_new_def Let_def split: prod.split)

subsection \<open>The replay of the first listing\<close>

text \<open>One step back from a cell of a filled matrix.\<close>

lemma filled_pred:
  assumes f: "filled from to costs M" and i: "i \<le> length to" and j: "j \<le> length from"
    and pos: "0 < i \<or> 0 < j"
  shows "(type (edit (M ! i ! j)) \<noteq> DELETE \<longrightarrow> 0 < i) \<and>
         (type (edit (M ! i ! j)) \<noteq> INSERT \<longrightarrow> 0 < j) \<and>
         cost (M ! i ! j) =
           cost (M ! (if type (edit (M ! i ! j)) \<noteq> DELETE then i - 1 else i)
                   ! (if type (edit (M ! i ! j)) \<noteq> INSERT then j - 1 else j))
             + costs (type (edit (M ! i ! j)))"
proof (cases i)
  case 0
  with pos obtain j' where j': "j = Suc j'" by (cases j) auto
  with j have "j' < length from" "j' \<le> length from" by simp_all
  then show ?thesis
    using f 0 j' filled_first_row_cost[OF f, of j']
    by (simp add: filled_first_row EditNode_new_def algebra_simps)
next
  case (Suc i')
  with i have i': "i' < length to" "i' \<le> length to" by simp_all
  show ?thesis
  proof (cases j)
    case 0
    then show ?thesis
      using f Suc i' filled_first_column_cost[OF f, of i']
      by (simp add: filled_first_column EditNode_new_def algebra_simps)
  next
    case (Suc j')
    with j have j': "j' < length from" by simp
    have node: "M ! i ! j = recurrence_node from to costs M i' j'"
      using f i'(1) j' \<open>i = Suc i'\<close> Suc by (simp add: filled_inner)
    show ?thesis
      unfolding node type_recurrence_node cost_recurrence_node
      using \<open>i = Suc i'\<close> Suc by (auto simp: choose_edit_def)
  qed
qed

lemma of_nat_pos32: "k < 2 ^ 32 \<Longrightarrow> (0 < (of_nat k :: unsigned)) = (0 < k)"
  by (simp add: word_less_nat_alt unat_of_nat32)

lemma of_nat_minus1: "0 < k \<Longrightarrow> (of_nat k :: unsigned) - 1 = of_nat (k - 1)"
  by (cases k) simp_all

lemma replay_filled:
  fixes s :: "EditNode matrix_state"
  assumes m: "Suc (length from) < 2 ^ 32" and n: "Suc (length to) < 2 ^ 32"
    and f: "filled from to costs (edit_matrix s)"
  shows "i \<le> length to \<Longrightarrow> j \<le> length from \<Longrightarrow>
    \<exists>r tr. replay (s\<lparr>accesses := h\<rparr>) (of_nat j) (of_nat i) acc
             = Some (Inr (r @ acc, s\<lparr>accesses := h @ tr\<rparr>)) \<and>
       length (filter (\<lambda>e. type e \<noteq> INSERT) r) = j \<and>
       length (filter (\<lambda>e. type e \<noteq> DELETE) r) = i \<and>
       sum_list (map (\<lambda>e. costs (type e)) r) = cost (edit_matrix s ! i ! j) \<and>
       (\<forall>a\<in>set tr. \<exists>r c. a = Read r c \<and> r \<le> i \<and> c \<le> j)"
proof (induction "i + j" arbitrary: i j h acc rule: less_induct)
  case less
  let ?M = "edit_matrix s"
  have g: "grid ?M (Suc (length to)) (Suc (length from))"
    using f by (rule filled_grid)
  have ui: "unat (of_nat i :: unsigned) = i" and uj: "unat (of_nat j :: unsigned) = j"
    using less.prems m n by (simp_all add: unat_of_nat32)
  show ?case
  proof (cases "0 < i \<or> 0 < j")
    case False
    then have "replay (s\<lparr>accesses := h\<rparr>) (of_nat j) (of_nat i) acc = Some (Inr ([] @ acc, s\<lparr>accesses := h @ []\<rparr>))"
      by (subst replay.simps) (simp add: EditNode_default_def)
    moreover have "cost (?M ! i ! j) = 0"
      using False f by (simp add: filled_origin EditNode_default_def)
    ultimately show ?thesis
      using False by (intro exI[of _ "[]"]) simp
  next
    case True
    let ?e = "edit (?M ! i ! j)"
    let ?i' = "if type ?e \<noteq> DELETE then i - 1 else i"
    let ?j' = "if type ?e \<noteq> INSERT then j - 1 else j"
    have pred: "type ?e \<noteq> DELETE \<longrightarrow> 0 < i" "type ?e \<noteq> INSERT \<longrightarrow> 0 < j"
      "cost (?M ! i ! j) = cost (?M ! ?i' ! ?j') + costs (type ?e)"
      using filled_pred[OF f less.prems True] by simp_all
    have cond: "0 < (of_nat j :: unsigned) \<or> 0 < (of_nat i :: unsigned)"
      using True less.prems m n by (auto simp: of_nat_pos32)
    have get: "matrix_get (s\<lparr>accesses := h\<rparr>) (of_nat i) (of_nat j)
                 = Inr (?M ! i ! j, s\<lparr>accesses := h @ [Read i j]\<rparr>)"
      using g less.prems
      by (subst matrix_get_grid[where rows = "Suc (length to)" and cols = "Suc (length from)"])
        (simp_all add: ui uj)
    have idx: "(if type ?e \<noteq> INSERT then (of_nat j :: unsigned) - 1 else of_nat j) = of_nat ?j'"
      "(if type ?e \<noteq> DELETE then (of_nat i :: unsigned) - 1 else of_nat i) = of_nat ?i'"
      using pred(1,2) by (simp_all add: of_nat_minus1)
    have unfold: "replay (s\<lparr>accesses := h\<rparr>) (of_nat j) (of_nat i) acc
                    = replay (s\<lparr>accesses := h @ [Read i j]\<rparr>) (of_nat ?j') (of_nat ?i') (?e # acc)"
      using cond by (subst replay.simps) (simp add: get idx)
    have dec: "?i' + ?j' < i + j"
      using pred(1,2) by (cases "type ?e") auto
    have le: "?i' \<le> length to" "?j' \<le> length from"
      using less.prems by auto
    from less.hyps[OF dec le, of "h @ [Read i j]" "?e # acc"]
    obtain r tr where r:
      "replay (s\<lparr>accesses := h @ [Read i j]\<rparr>) (of_nat ?j') (of_nat ?i') (?e # acc)
         = Some (Inr (r @ ?e # acc, s\<lparr>accesses := (h @ [Read i j]) @ tr\<rparr>))"
      "length (filter (\<lambda>e. type e \<noteq> INSERT) r) = ?j'"
      "length (filter (\<lambda>e. type e \<noteq> DELETE) r) = ?i'"
      "sum_list (map (\<lambda>e. costs (type e)) r) = cost (?M ! ?i' ! ?j')"
      "\<forall>a\<in>set tr. \<exists>r c. a = Read r c \<and> r \<le> ?i' \<and> c \<le> ?j'"
      by blast
    have "replay (s\<lparr>accesses := h\<rparr>) (of_nat j) (of_nat i) acc
            = Some (Inr ((r @ [?e]) @ acc, s\<lparr>accesses := h @ (Read i j # tr)\<rparr>))"
      using unfold r(1) by simp
    moreover have "length (filter (\<lambda>e. type e \<noteq> INSERT) (r @ [?e])) = j"
      using r(2) pred(2) by auto
    moreover have "length (filter (\<lambda>e. type e \<noteq> DELETE) (r @ [?e])) = i"
      using r(3) pred(1) by auto
    moreover have "sum_list (map (\<lambda>e. costs (type e)) (r @ [?e])) = cost (?M ! i ! j)"
      using r(4) pred(3) by simp
    moreover have "\<forall>a\<in>set (Read i j # tr). \<exists>r c. a = Read r c \<and> r \<le> i \<and> c \<le> j"
      using r(5) by (auto split: if_splits) (metis diff_le_self order_trans)+
    ultimately show ?thesis
      by blast
  qed
qed

text \<open>The whole call of the first listing on strings whose lengths fit \<^verbatim>\<open>unsigned\<close>.\<close>

lemma run_optimal_edits_filled:
  assumes m: "length from < 2 ^ 32 - 1" and n: "length to < 2 ^ 32 - 1"
  shows "\<exists>s r tr. build_matrix from to costs = Inr s \<and>
           filled from to costs (edit_matrix s) \<and>
           accesses s = build_accesses (length from) (length to) \<and>
           run_optimal_edits from to costs = Some (Inr (r, s\<lparr>accesses := accesses s @ tr\<rparr>)) \<and>
           length (filter (\<lambda>e. type e \<noteq> INSERT) r) = length from \<and>
           length (filter (\<lambda>e. type e \<noteq> DELETE) r) = length to \<and>
           sum_list (map (\<lambda>e. costs (type e)) r) = cost (edit_matrix s ! length to ! length from) \<and>
           (\<forall>a\<in>set tr. \<exists>r c. a = Read r c \<and> r \<le> length to \<and> c \<le> length from)"
proof -
  have m': "Suc (length from) < 2 ^ 32" and n': "Suc (length to) < 2 ^ 32"
    using m n by simp_all
  obtain s where s: "build_matrix from to costs = Inr s" "filled from to costs (edit_matrix s)"
    "accesses s = build_accesses (length from) (length to)"
    using build_matrix_filled[OF m' n'] by blast
  obtain r tr where r:
    "replay (s\<lparr>accesses := accesses s\<rparr>) (of_nat (length from)) (of_nat (length to)) []
       = Some (Inr (r @ [], s\<lparr>accesses := accesses s @ tr\<rparr>))"
    "length (filter (\<lambda>e. type e \<noteq> INSERT) r) = length from"
    "length (filter (\<lambda>e. type e \<noteq> DELETE) r) = length to"
    "sum_list (map (\<lambda>e. costs (type e)) r) = cost (edit_matrix s ! length to ! length from)"
    "\<forall>a\<in>set tr. \<exists>r c. a = Read r c \<and> r \<le> length to \<and> c \<le> length from"
    using replay_filled[OF m' n' s(2) order_refl order_refl, of "accesses s" "[]"] by blast
  have "run_optimal_edits from to costs = Some (Inr (r, s\<lparr>accesses := accesses s @ tr\<rparr>))"
    using s(1) r(1) by (simp add: run_optimal_edits_def)
  with s r(2-5) show ?thesis
    by blast
qed

subsection \<open>The matrix of the second listing\<close>

lemma recurrence_node_cong2:
  "M' ! i ! Suc j = M ! i ! Suc j \<Longrightarrow> M' ! Suc i ! j = M ! Suc i ! j \<Longrightarrow> M' ! i ! j = M ! i ! j \<Longrightarrow>
     recurrence_node2 from to costs M' i j = recurrence_node2 from to costs M i j"
  by (simp add: recurrence_node2_def)

lemma cell_step_grid2:
  assumes g: "grid (edit_matrix s) (Suc n) (Suc m)"
    and n: "n = length to" "Suc n < 2 ^ 32"
    and m: "m = length from" "Suc m < 2 ^ 32"
    and i: "i < n" and j: "j < m"
  shows "cell_step2 from to costs (of_nat i) (of_nat j) s =
           Inr (s\<lparr>edit_matrix := upd2 (edit_matrix s) (Suc i) (Suc j)
                                   (recurrence_node2 from to costs (edit_matrix s) i j),
                   accesses := accesses s @ cell_accesses i j\<rparr>)"
proof -
  have ui: "unat (of_nat i :: unsigned) = i" "unat (of_nat i + 1 :: unsigned) = Suc i"
    using i n by (simp_all add: unat_of_nat32 unat_of_nat_plus1)
  have uj: "unat (of_nat j :: unsigned) = j" "unat (of_nat j + 1 :: unsigned) = Suc j"
    using j m by (simp_all add: unat_of_nat32 unat_of_nat_plus1)
  have c: "char_at from (of_nat j) = Inr (from ! j)" "char_at to (of_nat i) = Inr (to ! i)"
    using i j n m by (simp_all add: char_at_in)
  show ?thesis
    using g i j
    by (simp add: cell_step2_def c matrix_get_grid[where rows = "Suc n" and cols = "Suc m"]
        matrix_set_grid[where rows = "Suc n" and cols = "Suc m"] ui uj Let_def
        recurrence_node2_def cell_accesses_def split: prod.split)
qed

lemma first_row_ok_upd2_other2:
  "grid M rows cols \<Longrightarrow> a < rows \<Longrightarrow> b < cols \<Longrightarrow> 0 < a \<Longrightarrow>
     first_row_ok2 costs (upd2 M a b v) k = first_row_ok2 costs M k"
  by (simp add: first_row_ok2_def nth_upd2)

lemma first_row_ok_upd2_next2:
  "grid M rows cols \<Longrightarrow> 0 < rows \<Longrightarrow> Suc k < cols \<Longrightarrow> first_row_ok2 costs M k \<Longrightarrow>
     first_row_ok2 costs
       (upd2 M 0 (Suc k) (EditNode2_new DELETE (CHR 0x00) (of_nat (Suc k) * costs DELETE)))
       (Suc k)"
  by (auto simp: first_row_ok2_def nth_upd2 less_Suc_eq)

lemma row_ok_upd2_below2:
  "grid M rows cols \<Longrightarrow> a < rows \<Longrightarrow> b < cols \<Longrightarrow> Suc i < a \<Longrightarrow>
     row_ok2 from to costs (upd2 M a b v) i k = row_ok2 from to costs M i k"
  by (simp add: row_ok2_def nth_upd2 recurrence_node2_def)

lemma row_ok_upd2_start2:
  "grid M rows cols \<Longrightarrow> Suc i < rows \<Longrightarrow> 0 < cols \<Longrightarrow>
     row_ok2 from to costs
       (upd2 M (Suc i) 0 (EditNode2_new INSERT (to ! i) (of_nat (Suc i) * costs INSERT))) i 0"
  by (simp add: row_ok2_def nth_upd2)

lemma row_ok_upd2_next2:
  assumes "grid M rows cols" "Suc i < rows" "Suc k < cols" "row_ok2 from to costs M i k"
  shows "row_ok2 from to costs (upd2 M (Suc i) (Suc k) (recurrence_node2 from to costs M i k)) i (Suc k)"
proof -
  let ?M' = "upd2 M (Suc i) (Suc k) (recurrence_node2 from to costs M i k)"
  have same: "recurrence_node2 from to costs ?M' i j = recurrence_node2 from to costs M i j" if "j \<le> k" for j
    using assms(1-3) that by (intro recurrence_node_cong2) (simp_all add: nth_upd2)
  show ?thesis
    using assms same by (auto simp: row_ok2_def nth_upd2 less_Suc_eq)
qed

lemma alloc_matrix_ok2:
  assumes "Suc m < 2 ^ 32" "Suc n < 2 ^ 32"
  shows "alloc_matrix2 (of_nat m) (of_nat n) =
           Inr \<lparr>edit_matrix = replicate (Suc n) (replicate (Suc m) EditNode2_default), accesses = []\<rparr>"
proof -
  let ?P = "\<lambda>k s. s = \<lparr>edit_matrix = replicate k (replicate (Suc m) EditNode2_default), accesses = []\<rparr>"
  have "\<exists>s'. for_loop 0 (of_nat n + 1)
               (\<lambda>i s. Inr (emplace_back s (of_nat m + 1) EditNode2_default))
               \<lparr>edit_matrix = [], accesses = []\<rparr> = Inr s' \<and> ?P (unat (of_nat n + 1 :: unsigned)) s'"
    using assms(1)
    by (intro for_loop_invariant) (simp_all add: emplace_back_def unat_of_nat_plus1 replicate_append_same)
  then show ?thesis
    using assms(2) by (simp add: alloc_matrix2_def unat_of_nat_plus1)
qed

lemma first_row_loop2:
  assumes m: "Suc m < 2 ^ 32"
    and g: "grid (edit_matrix s) (Suc n) (Suc m)"
    and z: "edit_matrix s ! 0 ! 0 = EditNode2_default"
  shows "\<exists>s'. for_loop 0 (of_nat m) (first_row_step2 costs) s = Inr s' \<and>
               grid (edit_matrix s') (Suc n) (Suc m) \<and>
               first_row_ok2 costs (edit_matrix s') m \<and>
               accesses s' = accesses s @ map (\<lambda>j. Write 0 (Suc j)) [0..<m]"
proof -
  let ?P = "\<lambda>k (s' :: EditNode2 matrix_state). grid (edit_matrix s') (Suc n) (Suc m) \<and> first_row_ok2 costs (edit_matrix s') k \<and>
                     accesses s' = accesses s @ map (\<lambda>j. Write 0 (Suc j)) [0..<k]"
  have um: "unat (of_nat m :: unsigned) = m"
    using m by (simp add: unat_of_nat32)
  have "\<exists>s'. for_loop 0 (of_nat m) (first_row_step2 costs) s = Inr s' \<and> ?P (unat (of_nat m :: unsigned)) s'"
  proof (rule for_loop_invariant)
    show "?P 0 s"
      using g z by (simp add: first_row_ok2_def)
  next
    fix k and s1 :: "EditNode2 matrix_state"
    assume k: "k < unat (of_nat m :: unsigned)" and P: "?P k s1"
    from k um have k': "k < m" by simp
    have uk: "unat (of_nat k + 1 :: unsigned) = Suc k"
      using k' m by (simp add: unat_of_nat_plus1)
    have cost_eq: "(of_nat k + 1) * costs DELETE = of_nat (Suc k) * costs DELETE"
      by (simp add: add.commute)
    show "\<exists>s'. first_row_step2 costs (of_nat k) s1 = Inr s' \<and> ?P (Suc k) s'"
      using P k'
      by (simp add: first_row_step2_def matrix_set_grid[where rows = "Suc n" and cols = "Suc m"] uk
          grid_upd2 first_row_ok_upd2_next2[where rows = "Suc n" and cols = "Suc m"] cost_eq
          del: of_nat_Suc)
  qed
  then show ?thesis
    by (simp add: um)
qed

lemma cell_loop2:
  fixes s :: "EditNode2 matrix_state"
  assumes m: "Suc (length from) < 2 ^ 32" and n: "Suc (length to) < 2 ^ 32"
    and i: "i < length to"
    and g: "grid (edit_matrix s) (Suc (length to)) (Suc (length from))"
    and r0: "first_row_ok2 costs (edit_matrix s) (length from)"
    and rs: "\<forall>i'<i. row_ok2 from to costs (edit_matrix s) i' (length from)"
    and ri: "row_ok2 from to costs (edit_matrix s) i 0"
  shows "\<exists>s'. for_loop 0 (of_nat (length from)) (cell_step2 from to costs (of_nat i)) s = Inr s' \<and>
               grid (edit_matrix s') (Suc (length to)) (Suc (length from)) \<and>
               first_row_ok2 costs (edit_matrix s') (length from) \<and>
               (\<forall>i'<i. row_ok2 from to costs (edit_matrix s') i' (length from)) \<and>
               row_ok2 from to costs (edit_matrix s') i (length from) \<and>
               accesses s' = accesses s @ concat (map (cell_accesses i) [0..<length from])"
proof -
  let ?m = "length from" and ?n = "length to"
  let ?Q = "\<lambda>k (s' :: EditNode2 matrix_state).
              grid (edit_matrix s') (Suc ?n) (Suc ?m) \<and>
              first_row_ok2 costs (edit_matrix s') ?m \<and>
              (\<forall>i'<i. row_ok2 from to costs (edit_matrix s') i' ?m) \<and>
              row_ok2 from to costs (edit_matrix s') i k \<and>
              accesses s' = accesses s @ concat (map (cell_accesses i) [0..<k])"
  have um: "unat (of_nat ?m :: unsigned) = ?m"
    using m by (simp add: unat_of_nat32)
  have "\<exists>s'. for_loop 0 (of_nat ?m) (cell_step2 from to costs (of_nat i)) s = Inr s' \<and>
             ?Q (unat (of_nat ?m :: unsigned)) s'"
  proof (rule for_loop_invariant)
    show "?Q 0 s"
      using g r0 rs ri by simp
  next
    fix k and s1 :: "EditNode2 matrix_state"
    assume k: "k < unat (of_nat ?m :: unsigned)" and Q: "?Q k s1"
    from k um have k': "k < ?m" by simp
    let ?M = "edit_matrix s1"
    let ?s2 = "s1\<lparr>edit_matrix := upd2 ?M (Suc i) (Suc k) (recurrence_node2 from to costs ?M i k),
                   accesses := accesses s1 @ cell_accesses i k\<rparr>"
    from Q have g1: "grid ?M (Suc ?n) (Suc ?m)" by simp
    have step: "cell_step2 from to costs (of_nat i) (of_nat k) s1 = Inr ?s2"
      using g1 n m i k' by (intro cell_step_grid2) simp_all
    have "grid (edit_matrix ?s2) (Suc ?n) (Suc ?m)"
      using g1 by (simp add: grid_upd2)
    moreover have "first_row_ok2 costs (edit_matrix ?s2) ?m"
      using Q i k' by (simp add: first_row_ok_upd2_other2[OF g1])
    moreover have "\<forall>i'<i. row_ok2 from to costs (edit_matrix ?s2) i' ?m"
      using Q i k' by (simp add: row_ok_upd2_below2[OF g1])
    moreover have "row_ok2 from to costs (edit_matrix ?s2) i (Suc k)"
      using Q i k' row_ok_upd2_next2[OF g1, of i k "from" "to" costs] by simp
    moreover have "accesses ?s2 = accesses s @ concat (map (cell_accesses i) [0..<Suc k])"
      using Q by simp
    ultimately have "?Q (Suc k) ?s2"
      by blast
    with step show "\<exists>s'. cell_step2 from to costs (of_nat i) (of_nat k) s1 = Inr s' \<and> ?Q (Suc k) s'"
      by blast
  qed
  then show ?thesis
    by (simp add: um)
qed

lemma row_loop2:
  fixes s :: "EditNode2 matrix_state"
  assumes m: "Suc (length from) < 2 ^ 32" and n: "Suc (length to) < 2 ^ 32"
    and g: "grid (edit_matrix s) (Suc (length to)) (Suc (length from))"
    and r0: "first_row_ok2 costs (edit_matrix s) (length from)"
  shows "\<exists>s'. for_loop 0 (of_nat (length to)) (row_step2 from to costs (of_nat (length from))) s = Inr s' \<and>
               filled2 from to costs (edit_matrix s') \<and>
               accesses s' = accesses s @ concat (map (row_accesses (length from)) [0..<length to])"
proof -
  let ?m = "length from" and ?n = "length to"
  let ?P = "\<lambda>k (s' :: EditNode2 matrix_state).
              grid (edit_matrix s') (Suc ?n) (Suc ?m) \<and>
              first_row_ok2 costs (edit_matrix s') ?m \<and>
              (\<forall>i'<k. row_ok2 from to costs (edit_matrix s') i' ?m) \<and>
              accesses s' = accesses s @ concat (map (row_accesses ?m) [0..<k])"
  have un: "unat (of_nat ?n :: unsigned) = ?n"
    using n by (simp add: unat_of_nat32)
  have "\<exists>s'. for_loop 0 (of_nat ?n) (row_step2 from to costs (of_nat ?m)) s = Inr s' \<and>
             ?P (unat (of_nat ?n :: unsigned)) s'"
  proof (rule for_loop_invariant)
    show "?P 0 s"
      using g r0 by simp
  next
    fix i and s1 :: "EditNode2 matrix_state"
    assume i: "i < unat (of_nat ?n :: unsigned)" and P: "?P i s1"
    from i un have i': "i < ?n" by simp
    let ?M = "edit_matrix s1"
    let ?v = "EditNode2_new INSERT (to ! i) (of_nat (Suc i) * costs INSERT)"
    let ?s2 = "s1\<lparr>edit_matrix := upd2 ?M (Suc i) 0 ?v, accesses := accesses s1 @ [Write (Suc i) 0]\<rparr>"
    from P have g1: "grid ?M (Suc ?n) (Suc ?m)" by simp
    have ui: "unat (of_nat i + 1 :: unsigned) = Suc i"
      using i' n by (simp add: unat_of_nat_plus1)
    have c: "char_at to (of_nat i) = Inr (to ! i)"
      using i' n by (simp add: char_at_in)
    have cost_eq: "(of_nat i + 1) * costs INSERT = of_nat (Suc i) * costs INSERT"
      by (simp add: add.commute)
    have set: "matrix_set s1 (of_nat i + 1) 0 (EditNode2_new INSERT (to ! i) ((of_nat i + 1) * costs INSERT))
                 = Inr ?s2"
      using g1 i' unfolding cost_eq
      by (subst matrix_set_grid[where rows = "Suc ?n" and cols = "Suc ?m"]) (simp_all add: ui)
    have g2: "grid (edit_matrix ?s2) (Suc ?n) (Suc ?m)"
      using g1 by (simp add: grid_upd2)
    have "first_row_ok2 costs (edit_matrix ?s2) ?m"
      using P i' by (simp add: first_row_ok_upd2_other2[OF g1])
    moreover have "\<forall>i'<i. row_ok2 from to costs (edit_matrix ?s2) i' ?m"
      using P i' by (simp add: row_ok_upd2_below2[OF g1])
    moreover have "row_ok2 from to costs (edit_matrix ?s2) i 0"
      using i' row_ok_upd2_start2[OF g1, of i "from" "to" costs] by simp
    ultimately obtain s3 where s3:
      "for_loop 0 (of_nat ?m) (cell_step2 from to costs (of_nat i)) ?s2 = Inr s3"
      "grid (edit_matrix s3) (Suc ?n) (Suc ?m)"
      "first_row_ok2 costs (edit_matrix s3) ?m"
      "\<forall>i'<i. row_ok2 from to costs (edit_matrix s3) i' ?m"
      "row_ok2 from to costs (edit_matrix s3) i ?m"
      "accesses s3 = accesses ?s2 @ concat (map (cell_accesses i) [0..<?m])"
      using cell_loop2[OF m n i' g2] by blast
    have "row_step2 from to costs (of_nat ?m) (of_nat i) s1 = Inr s3"
      by (simp add: row_step2_def c set s3(1) del: of_nat_Suc)
    moreover have "?P (Suc i) s3"
      using s3 P by (auto simp: less_Suc_eq row_accesses_def)
    ultimately show "\<exists>s'. row_step2 from to costs (of_nat ?m) (of_nat i) s1 = Inr s' \<and> ?P (Suc i) s'"
      by blast
  qed
  then show ?thesis
    by (auto simp: filled2_def un)
qed

lemma build_matrix_filled2:
  assumes m: "Suc (length from) < 2 ^ 32" and n: "Suc (length to) < 2 ^ 32"
  shows "\<exists>s. build_matrix2 from to costs = Inr s \<and> filled2 from to costs (edit_matrix s) \<and>
             accesses s = build_accesses (length from) (length to)"
proof -
  let ?s0 = "\<lparr>edit_matrix = replicate (Suc (length to)) (replicate (Suc (length from)) EditNode2_default),
              accesses = []\<rparr>"
  have a: "alloc_matrix2 (of_nat (length from)) (of_nat (length to)) = Inr ?s0"
    using m n by (rule alloc_matrix_ok2)
  have g0: "grid (edit_matrix ?s0) (Suc (length to)) (Suc (length from))"
    by (simp add: grid_replicate del: replicate.simps)
  obtain s1 where s1: "for_loop 0 (of_nat (length from)) (first_row_step2 costs) ?s0 = Inr s1"
    "grid (edit_matrix s1) (Suc (length to)) (Suc (length from))"
    "first_row_ok2 costs (edit_matrix s1) (length from)"
    "accesses s1 = map (\<lambda>j. Write 0 (Suc j)) [0..<length from]"
    using first_row_loop2[OF m g0, of costs] by auto
  obtain s2 where s2: "for_loop 0 (of_nat (length to)) (row_step2 from to costs (of_nat (length from))) s1 = Inr s2"
    "filled2 from to costs (edit_matrix s2)"
    "accesses s2 = accesses s1 @ concat (map (row_accesses (length from)) [0..<length to])"
    using row_loop2[OF m n s1(2,3)] by blast
  show ?thesis
    using a s1 s2 by (simp add: build_matrix2_def build_accesses_def)
qed

lemma filled_first_row2:
  "filled2 from to costs M \<Longrightarrow> j < length from \<Longrightarrow>
     M ! 0 ! Suc j = EditNode2_new DELETE (CHR 0x00) (of_nat (Suc j) * costs DELETE)"
  by (simp add: filled2_def first_row_ok2_def)

lemma filled_origin2: "filled2 from to costs M \<Longrightarrow> M ! 0 ! 0 = EditNode2_default"
  by (simp add: filled2_def first_row_ok2_def)

lemma filled_first_column2:
  "filled2 from to costs M \<Longrightarrow> i < length to \<Longrightarrow>
     M ! Suc i ! 0 = EditNode2_new INSERT (to ! i) (of_nat (Suc i) * costs INSERT)"
  by (simp add: filled2_def row_ok2_def)

lemma filled_inner2:
  "filled2 from to costs M \<Longrightarrow> i < length to \<Longrightarrow> j < length from \<Longrightarrow>
     M ! Suc i ! Suc j = recurrence_node2 from to costs M i j"
  by (simp add: filled2_def row_ok2_def)

lemma filled_first_row_cost2:
  "filled2 from to costs M \<Longrightarrow> j \<le> length from \<Longrightarrow> cost2 (M ! 0 ! j) = of_nat j * costs DELETE"
  by (cases j) (simp_all add: filled_origin2 filled_first_row2 EditNode2_default_def EditNode2_new_def)

lemma filled_first_column_cost2:
  "filled2 from to costs M \<Longrightarrow> i \<le> length to \<Longrightarrow> cost2 (M ! i ! 0) = of_nat i * costs INSERT"
  by (cases i) (simp_all add: filled_origin2 filled_first_column2 EditNode2_default_def EditNode2_new_def)

lemma cost_recurrence_node2:
  "cost2 (recurrence_node2 from to costs M i j) =
     fst (choose_edit2 (cost2 (M ! i ! Suc j) + costs INSERT) (cost2 (M ! Suc i ! j) + costs DELETE)
            (cost2 (M ! i ! j) + costs (if from ! j = to ! i then SKIP else REPLACE))
            (if from ! j = to ! i then SKIP else REPLACE))"
  by (simp add: recurrence_node2_def EditNode2_new_def Let_def split: prod.split)

subsection \<open>The access history of the matrix construction\<close>

lemma writes_simps [simp]:
  "writes [] = {}"
  "writes (Write r c # t) = insert (r, c) (writes t)"
  "writes (Read r c # t) = writes t"
  "writes (xs @ ys) = writes xs \<union> writes ys"
  by (auto simp: writes_def)

lemma written_before_read_append:
  "written_before_read W (xs @ ys) \<longleftrightarrow>
     written_before_read W xs \<and> written_before_read (W \<union> writes xs) ys"
proof (induction xs arbitrary: W)
  case Nil
  then show ?case by simp
next
  case (Cons a xs)
  then show ?case by (cases a) (simp_all add: Un_insert_left Un_insert_right)
qed

lemma first_row_written:
  "written_before_read W (map (\<lambda>j. Write 0 (Suc j)) [0..<m])"
  "writes (map (\<lambda>j. Write 0 (Suc j)) [0..<m]) = {(0, Suc j) | j. j < m}"
  by (induction m arbitrary: W) (auto simp: written_before_read_append)

lemma cell_accesses_written [simp]:
  "written_before_read W (cell_accesses i k) \<longleftrightarrow> (i, Suc k) \<in> W \<and> (Suc i, k) \<in> W \<and> (i, k) \<in> W"
  "writes (cell_accesses i k) = {(Suc i, Suc k)}"
  by (simp_all add: cell_accesses_def)

lemma cells_written:
  assumes full: "\<And>c. c \<le> m \<Longrightarrow> (i, c) \<in> W" and start: "(Suc i, 0) \<in> W"
  shows "k \<le> m \<Longrightarrow>
     written_before_read W (concat (map (cell_accesses i) [0..<k])) \<and>
     (\<forall>c\<le>k. (Suc i, c) \<in> W \<union> writes (concat (map (cell_accesses i) [0..<k])))"
proof (induction k)
  case 0
  then show ?case using start by simp
next
  case (Suc k)
  then have IH: "written_before_read W (concat (map (cell_accesses i) [0..<k]))"
    "\<forall>c\<le>k. (Suc i, c) \<in> W \<union> writes (concat (map (cell_accesses i) [0..<k]))"
    by simp_all
  have "(i, Suc k) \<in> W" "(i, k) \<in> W"
    using full Suc.prems by simp_all
  then show ?case
    using IH by (auto simp: written_before_read_append le_Suc_eq)
qed

lemma row_written:
  assumes full: "\<And>c. c \<le> m \<Longrightarrow> (i, c) \<in> W"
  shows "written_before_read W (row_accesses m i) \<and>
         (\<forall>c\<le>m. (Suc i, c) \<in> W \<union> writes (row_accesses m i))"
proof -
  have "written_before_read (insert (Suc i, 0) W) (concat (map (cell_accesses i) [0..<m])) \<and>
        (\<forall>c\<le>m. (Suc i, c) \<in> insert (Suc i, 0) W \<union> writes (concat (map (cell_accesses i) [0..<m])))"
    using full cells_written[of m i "insert (Suc i, 0) W" m] by simp
  then show ?thesis
    by (simp add: row_accesses_def)
qed

lemma rows_written:
  assumes full: "\<And>c. c \<le> m \<Longrightarrow> (0, c) \<in> W"
  shows "written_before_read W (concat (map (row_accesses m) [0..<n])) \<and>
         (\<forall>c\<le>m. (n, c) \<in> W \<union> writes (concat (map (row_accesses m) [0..<n])))"
proof (induction n)
  case 0
  then show ?case using full by simp
next
  case (Suc n)
  let ?W = "W \<union> writes (concat (map (row_accesses m) [0..<n]))"
  have "written_before_read ?W (row_accesses m n) \<and>
        (\<forall>c\<le>m. (Suc n, c) \<in> ?W \<union> writes (row_accesses m n))"
    using Suc row_written[of m n ?W] by simp
  then show ?case
    using Suc by (simp add: written_before_read_append Un_assoc)
qed

lemma build_accesses_written: "written_before_read {(0, 0)} (build_accesses m n)"
proof -
  let ?W = "{(0, 0)} \<union> writes (map (\<lambda>j. Write 0 (Suc j)) [0..<m])"
  have "(0, c) \<in> ?W" if "c \<le> m" for c
    using that by (cases c) (auto simp: first_row_written(2))
  then have "written_before_read ?W (concat (map (row_accesses m) [0..<n]))"
    using rows_written[of m ?W n] by blast
  then show ?thesis
    by (simp add: build_accesses_def written_before_read_append first_row_written(1))
qed

lemma build_accesses_within: "list_all (within n m) (build_accesses m n)"
  by (auto simp: list_all_iff build_accesses_def row_accesses_def cell_accesses_def)

subsection \<open>Costs without overflow\<close>

lemma unat_of_nat_mult_le: "unat (of_nat k * c :: unsigned) \<le> k * unat c"
proof -
  have "unat (of_nat k * c :: unsigned) \<le> unat (of_nat k :: unsigned) * unat c"
    by (simp add: unat_word_ariths)
  also have "\<dots> \<le> k * unat c"
    by (simp add: unat_of_nat)
  finally show ?thesis .
qed

lemma unat_add_le: "unat (a + b :: unsigned) \<le> unat a + unat b"
  by (simp add: unat_word_ariths)

lemma cost_grid_bound:
  assumes cg: "cost_grid sel costs rt C n m"
    and sel: "\<And>a b. sel a b = a \<or> sel a b = b"
    and K: "\<And>t. unat (costs t) \<le> K"
  shows "i \<le> n \<Longrightarrow> j \<le> m \<Longrightarrow> unat (C i j) \<le> (i + j) * K"
proof (induction "i + j" arbitrary: i j rule: less_induct)
  case less
  show ?case
  proof (cases i)
    case 0
    have "unat (C 0 j) \<le> j * unat (costs DELETE)"
      using cg less.prems by (simp add: cost_grid_def unat_of_nat_mult_le)
    also have "\<dots> \<le> j * K"
      using K by simp
    finally show ?thesis using 0 by simp
  next
    case (Suc i')
    show ?thesis
    proof (cases j)
      case 0
      have "unat (C i 0) \<le> i * unat (costs INSERT)"
        using cg less.prems by (simp add: cost_grid_def unat_of_nat_mult_le)
      also have "\<dots> \<le> i * K"
        using K by simp
      finally show ?thesis using 0 by simp
    next
      case (Suc j')
      have i': "i' < n" and j': "j' < m"
        using less.prems \<open>i = Suc i'\<close> Suc by simp_all
      have eq: "C i j = sel (C i' (Suc j') + costs INSERT)
                          (sel (C (Suc i') j' + costs DELETE) (C i' j' + costs (rt i' j')))"
        using cg i' j' \<open>i = Suc i'\<close> Suc by (simp add: cost_grid_def)
      have b1: "unat (C i' (Suc j') + costs INSERT) \<le> (i + j) * K"
      proof -
        have "unat (C i' (Suc j')) \<le> (i' + Suc j') * K"
          using less.hyps[of i' "Suc j'"] i' j' \<open>i = Suc i'\<close> Suc by simp
        then have "unat (C i' (Suc j')) + unat (costs INSERT) \<le> (i' + Suc j') * K + K"
          using K[of INSERT] by linarith
        then show ?thesis
          using unat_add_le[of "C i' (Suc j')" "costs INSERT"] \<open>i = Suc i'\<close> Suc by simp
      qed
      have b2: "unat (C (Suc i') j' + costs DELETE) \<le> (i + j) * K"
      proof -
        have "unat (C (Suc i') j') \<le> (Suc i' + j') * K"
          using less.hyps[of "Suc i'" j'] i' j' \<open>i = Suc i'\<close> Suc by simp
        then have "unat (C (Suc i') j') + unat (costs DELETE) \<le> (Suc i' + j') * K + K"
          using K[of DELETE] by linarith
        then show ?thesis
          using unat_add_le[of "C (Suc i') j'" "costs DELETE"] \<open>i = Suc i'\<close> Suc by simp
      qed
      have b3: "unat (C i' j' + costs (rt i' j')) \<le> (i + j) * K"
      proof -
        have "unat (C i' j') \<le> (i' + j') * K"
          using less.hyps[of i' j'] i' j' \<open>i = Suc i'\<close> Suc by simp
        then have "unat (C i' j') + unat (costs (rt i' j')) \<le> (i' + j') * K + K"
          using K[of "rt i' j'"] by linarith
        then show ?thesis
          using unat_add_le[of "C i' j'" "costs (rt i' j')"] \<open>i = Suc i'\<close> Suc by simp
      qed
      have pick: "P (sel x (sel y z))" if "P x" "P y" "P z" for P and x y z :: unsigned
        using that sel[of x "sel y z"] sel[of y z] by auto
      show ?thesis
        unfolding eq using b1 b2 b3 by (intro pick[where P = "\<lambda>w. unat w \<le> (i + j) * K"])
    qed
  qed
qed

lemma word_add_mono_no_overflow:
  fixes a a' c c' :: unsigned
  assumes "a \<le> a'" "c \<le> c'" "unat a' + unat c' < 2 ^ 32"
  shows "a + c \<le> a' + c'"
proof -
  have "unat a + unat c < 2 ^ 32"
    using assms by (simp add: word_le_nat_alt)
  then have "unat (a + c) = unat a + unat c"
    by (simp add: unat_word_ariths)
  moreover have "unat (a' + c') = unat a' + unat c'"
    using assms(3) by (simp add: unat_word_ariths)
  ultimately show ?thesis
    using assms(1,2) by (simp add: word_le_nat_alt)
qed

lemma cost_grid_mono:
  assumes cg: "cost_grid sel costs rt C n m" and cg': "cost_grid sel costs' rt C' n m"
    and sel: "\<And>a b. sel a b = a \<or> sel a b = b"
    and mono: "\<And>a a' b b'. a \<le> a' \<Longrightarrow> b \<le> b' \<Longrightarrow> sel a b \<le> sel a' b'"
    and le: "\<And>t. costs t \<le> costs' t"
    and same: "costs DELETE = costs' DELETE" "costs INSERT = costs' INSERT"
    and K: "\<And>t. unat (costs' t) \<le> K" and small: "(n + m) * K < 2 ^ 32"
  shows "i \<le> n \<Longrightarrow> j \<le> m \<Longrightarrow> C i j \<le> C' i j"
proof (induction "i + j" arbitrary: i j rule: less_induct)
  case less
  show ?case
  proof (cases i)
    case 0
    then show ?thesis
      using cg cg' less.prems same by (simp add: cost_grid_def)
  next
    case (Suc i')
    show ?thesis
    proof (cases j)
      case 0
      then show ?thesis
        using cg cg' less.prems same by (simp add: cost_grid_def)
    next
      case (Suc j')
      have i': "i' < n" and j': "j' < m"
        using less.prems \<open>i = Suc i'\<close> Suc by simp_all
      have eq: "C i j = sel (C i' (Suc j') + costs INSERT)
                          (sel (C (Suc i') j' + costs DELETE) (C i' j' + costs (rt i' j')))"
        "C' i j = sel (C' i' (Suc j') + costs' INSERT)
                          (sel (C' (Suc i') j' + costs' DELETE) (C' i' j' + costs' (rt i' j')))"
        using cg cg' i' j' \<open>i = Suc i'\<close> Suc by (simp_all add: cost_grid_def)
      have room: "(a + b) * K + K < 2 ^ 32" if "a + b < n + m" for a b
      proof -
        have "(a + b) * K + K = (Suc (a + b)) * K" by simp
        also have "\<dots> \<le> (n + m) * K" using that by (intro mult_le_mono1) simp
        finally show ?thesis using small by simp
      qed
      have step: "C a b + costs t \<le> C' a b + costs' t"
        if "a \<le> n" "b \<le> m" "a + b < i + j" for a b t
      proof -
        have "C a b \<le> C' a b"
          using less.hyps that by simp
        moreover have "unat (C' a b) \<le> (a + b) * K"
          using cost_grid_bound[OF cg' sel K] that by simp
        moreover have "a + b < n + m"
          using that less.prems by simp
        ultimately show ?thesis
          using le[of t] K[of t] room[of a b] by (intro word_add_mono_no_overflow) simp_all
      qed
      have "C i' (Suc j') + costs INSERT \<le> C' i' (Suc j') + costs' INSERT"
        "C (Suc i') j' + costs DELETE \<le> C' (Suc i') j' + costs' DELETE"
        "C i' j' + costs (rt i' j') \<le> C' i' j' + costs' (rt i' j')"
        using i' j' \<open>i = Suc i'\<close> Suc by (simp_all add: step)
      then show ?thesis
        unfolding eq by (intro mono)
    qed
  qed
qed

lemma fst_choose_edit: "fst (choose_edit a b c t) = min a (min b c)"
  by (auto simp: choose_edit_def min_def)

lemma fst_choose_edit2: "fst (choose_edit2 a b c t) = max a (max b c)"
  by (auto simp: choose_edit2_def max_def)

lemma filled_cost_grid:
  assumes "filled from to costs M"
  shows "cost_grid min costs (\<lambda>i j. if from ! j = to ! i then SKIP else REPLACE)
           (\<lambda>i j. cost (M ! i ! j)) (length to) (length from)"
  using assms
  by (simp add: cost_grid_def filled_first_row_cost filled_first_column_cost filled_inner
      cost_recurrence_node fst_choose_edit)

lemma filled2_cost_grid:
  assumes "filled2 from to costs M"
  shows "cost_grid max costs (\<lambda>i j. if from ! j = to ! i then SKIP else REPLACE)
           (\<lambda>i j. cost2 (M ! i ! j)) (length to) (length from)"
  using assms
  by (simp add: cost_grid_def filled_first_row_cost2 filled_first_column_cost2 filled_inner2
      cost_recurrence_node2 fst_choose_edit2)

lemma terminal_cost_mono:
  assumes cg: "cost_grid sel costs rt C n m" and cg': "cost_grid sel (costs(REPLACE := r')) rt C' n m"
    and sel: "sel = min \<or> sel = max"
    and le: "costs REPLACE \<le> r'"
    and K: "\<forall>t. unat ((costs(REPLACE := r')) t) \<le> K" and small: "(m + n) * K < 2 ^ 32"
  shows "C n m \<le> C' n m"
proof (rule cost_grid_mono[OF cg cg'])
  show "sel a b = a \<or> sel a b = b" for a b
    using sel by (auto simp: min_def max_def)
  show "sel a b \<le> sel a' b'" if "a \<le> a'" "b \<le> b'" for a a' b b'
    using sel that by (auto intro: min.mono max.mono)
  show "costs t \<le> (costs(REPLACE := r')) t" for t
    using le by simp
  show "unat ((costs(REPLACE := r')) t) \<le> K" for t
    using K by blast
  show "(n + m) * K < 2 ^ 32"
    using small by (simp add: add.commute)
qed simp_all

subsection \<open>Aligning a string with itself; the replay of the second listing\<close>

lemma diagonal_cost:
  assumes f: "filled str str costs M" and z: "costs SKIP = 0"
  shows "k \<le> length str \<Longrightarrow> cost (M ! k ! k) = 0"
proof (induction k)
  case 0
  then show ?case using f by (simp add: filled_origin EditNode_default_def)
next
  case (Suc k)
  then have "cost (M ! k ! k) = 0" "k < length str" by simp_all
  then show ?case
    using f z by (simp add: filled_inner cost_recurrence_node choose_edit_def)
qed

lemma diagonal_node:
  assumes f: "filled str str costs M" and z: "costs SKIP = 0" and k: "k < length str"
  shows "edit (M ! Suc k ! Suc k) = \<lparr>type = SKIP, from_ch = str ! k, to_ch = str ! k\<rparr>"
proof -
  have "cost (M ! k ! k) = 0"
    using diagonal_cost[OF f z, of k] k by simp
  then show ?thesis
    using f z k by (simp add: filled_inner recurrence_node_def choose_edit_def EditNode_new_def)
qed

lemma replay_diagonal:
  fixes s :: "EditNode matrix_state"
  assumes len: "Suc (length str) < 2 ^ 32"
    and g: "grid (edit_matrix s) (Suc (length str)) (Suc (length str))"
    and diag: "\<And>k. k < length str \<Longrightarrow>
                 edit (edit_matrix s ! Suc k ! Suc k) = \<lparr>type = SKIP, from_ch = str ! k, to_ch = str ! k\<rparr>"
  shows "k \<le> length str \<Longrightarrow>
    \<exists>tr. replay (s\<lparr>accesses := h\<rparr>) (of_nat k) (of_nat k) acc
           = Some (Inr (map (\<lambda>c. \<lparr>type = SKIP, from_ch = c, to_ch = c\<rparr>) (take k str) @ acc,
                        s\<lparr>accesses := h @ tr\<rparr>))"
proof (induction k arbitrary: h acc)
  case 0
  have "replay (s\<lparr>accesses := h\<rparr>) 0 0 acc = Some (Inr (acc, s\<lparr>accesses := h @ []\<rparr>))"
    by (subst replay.simps) simp
  then show ?case
    by (intro exI[of _ "[]"]) simp
next
  case (Suc k)
  let ?M = "edit_matrix s"
  let ?e = "\<lparr>type = SKIP, from_ch = str ! k, to_ch = str ! k\<rparr>"
  have k: "k < length str" using Suc.prems by simp
  have node: "edit (?M ! Suc k ! Suc k) = ?e"
    using k by (rule diag)
  have uk: "unat (of_nat (Suc k) :: unsigned) = Suc k"
    using k len by (intro unat_of_nat32) simp
  have pos: "0 < (of_nat (Suc k) :: unsigned)"
    using uk by (simp add: word_less_nat_alt del: of_nat_Suc)
  have get: "matrix_get (s\<lparr>accesses := h\<rparr>) (of_nat (Suc k)) (of_nat (Suc k))
               = Inr (?M ! Suc k ! Suc k, s\<lparr>accesses := h @ [Read (Suc k) (Suc k)]\<rparr>)"
    using g k
    by (subst matrix_get_grid[where rows = "Suc (length str)" and cols = "Suc (length str)"])
      (simp_all add: uk del: of_nat_Suc)
  have unfold: "replay (s\<lparr>accesses := h\<rparr>) (of_nat (Suc k)) (of_nat (Suc k)) acc
                  = replay (s\<lparr>accesses := h @ [Read (Suc k) (Suc k)]\<rparr>) (of_nat k) (of_nat k) (?e # acc)"
    using pos
    by (subst replay.simps) (simp add: get node of_nat_minus1 del: of_nat_Suc)
  obtain tr where tr:
    "replay (s\<lparr>accesses := h @ [Read (Suc k) (Suc k)]\<rparr>) (of_nat k) (of_nat k) (?e # acc)
       = Some (Inr (map (\<lambda>c. \<lparr>type = SKIP, from_ch = c, to_ch = c\<rparr>) (take k str) @ ?e # acc,
                    s\<lparr>accesses := (h @ [Read (Suc k) (Suc k)]) @ tr\<rparr>))"
    using Suc.IH[of "h @ [Read (Suc k) (Suc k)]" "?e # acc"] k by auto
  have "replay (s\<lparr>accesses := h\<rparr>) (of_nat (Suc k)) (of_nat (Suc k)) acc
          = Some (Inr (map (\<lambda>c. \<lparr>type = SKIP, from_ch = c, to_ch = c\<rparr>) (take (Suc k) str) @ acc,
                       s\<lparr>accesses := h @ (Read (Suc k) (Suc k) # tr)\<rparr>))"
    using unfold tr k by (simp add: take_Suc_conv_app_nth del: of_nat_Suc)
  then show ?case
    by blast
qed

lemma identity_run:
  assumes len: "length str < 2 ^ 32 - 1"
    and diag: "\<And>M k. filled str str costs M \<Longrightarrow> k < length str \<Longrightarrow>
                 edit (M ! Suc k ! Suc k) = \<lparr>type = SKIP, from_ch = str ! k, to_ch = str ! k\<rparr>"
  shows "compute_optimal_edits str str costs
           = Some (Inr (map (\<lambda>c. \<lparr>type = SKIP, from_ch = c, to_ch = c\<rparr>) str))"
proof -
  have len': "Suc (length str) < 2 ^ 32"
    using len by simp
  obtain s where s: "build_matrix str str costs = Inr s" "filled str str costs (edit_matrix s)"
    using build_matrix_filled[OF len' len'] by blast
  obtain tr where
    "replay (s\<lparr>accesses := accesses s\<rparr>) (of_nat (length str)) (of_nat (length str)) []
       = Some (Inr (map (\<lambda>c. \<lparr>type = SKIP, from_ch = c, to_ch = c\<rparr>) (take (length str) str) @ [],
                    s\<lparr>accesses := accesses s @ tr\<rparr>))"
    using replay_diagonal[OF len' filled_grid[OF s(2)] diag[OF s(2)] order_refl, of "accesses s" "[]"]
    by blast
  then show ?thesis
    using s(1) by (simp add: compute_optimal_edits_def run_optimal_edits_def)
qed

text \<open>The replay of the second listing: its first read is outside the matrix.\<close>

lemma run_optimal_edits2_out_of_range:
  assumes m: "length from < 2 ^ 32 - 1" and n: "length to < 2 ^ 32 - 1"
    and ne: "from \<noteq> [] \<or> to \<noteq> []"
  shows "\<exists>s. build_matrix2 from to costs = Inr s \<and>
             filled2 from to costs (edit_matrix s) \<and>
             accesses s = build_accesses (length from) (length to) \<and>
             matrix_get s (of_nat (length to) + 1) (of_nat (length from) + 1) = Inl OutOfRange \<and>
             run_optimal_edits2 from to costs = Some (Inl OutOfRange)"
proof -
  have m': "Suc (length from) < 2 ^ 32" and n': "Suc (length to) < 2 ^ 32"
    using m n by simp_all
  obtain s where s: "build_matrix2 from to costs = Inr s" "filled2 from to costs (edit_matrix s)"
    "accesses s = build_accesses (length from) (length to)"
    using build_matrix_filled2[OF m' n'] by blast
  have len: "length (edit_matrix s) = Suc (length to)"
    using s(2) by (simp add: filled2_def grid_def)
  have "unat (of_nat (length to) + 1 :: unsigned) = Suc (length to)"
    using n' by (rule unat_of_nat_plus1)
  then have get: "matrix_get s (of_nat (length to) + 1) (of_nat (length from) + 1) = Inl OutOfRange"
    using len by (simp add: matrix_get_def)
  have "0 < length from \<or> 0 < length to"
    using ne by auto
  then have "0 < (of_nat (length from) :: unsigned) \<or> 0 < (of_nat (length to) :: unsigned)"
    using m n by (auto simp: of_nat_pos32)
  then have "replay2 s (of_nat (length from)) (of_nat (length to)) [] = Some (Inl OutOfRange)"
    by (subst replay2.simps) (simp add: get)
  then show ?thesis
    using s get by (auto simp: run_optimal_edits2_def)
qed

subsection \<open>Aligning a string with itself when no operation is cheaper than a skip\<close>

lemma unat_of_nat_mult:
  assumes "k * unat c < 2 ^ 32"
  shows "unat (of_nat k * c :: unsigned) = k * unat c"
proof -
  have "unat (of_nat k * c :: unsigned) = (k mod 2 ^ 32 * unat c) mod 2 ^ 32"
    by (simp add: unat_word_ariths unat_of_nat)
  also have "\<dots> = (k * unat c) mod 2 ^ 32"
    by (simp add: mod_mult_left_eq)
  also have "\<dots> = k * unat c"
    using assms by simp
  finally show ?thesis .
qed

lemma unat_add_exact:
  "unat a + unat b < 2 ^ 32 \<Longrightarrow> unat (a + b :: unsigned) = unat a + unat b"
  by (simp add: unat_word_ariths)

lemma cost_grid_lower:
  assumes cg: "cost_grid min costs rt C n m"
    and cheapest: "\<And>t. costs SKIP \<le> costs t"
    and K: "\<And>t. unat (costs t) \<le> K" and small: "(n + m) * K < 2 ^ 32"
  shows "i \<le> n \<Longrightarrow> j \<le> m \<Longrightarrow> max i j * unat (costs SKIP) \<le> unat (C i j)"
proof (induction "i + j" arbitrary: i j rule: less_induct)
  case less
  let ?S = "unat (costs SKIP)"
  have S: "?S \<le> unat (costs t)" for t
    using cheapest[of t] by (simp add: word_le_nat_alt)
  have line: "k * ?S \<le> unat (of_nat k * costs t :: unsigned)" if "k \<le> n + m" for k t
  proof -
    have "k * unat (costs t) \<le> (n + m) * K"
      using that K[of t] by (intro mult_mono) simp_all
    then have "unat (of_nat k * costs t :: unsigned) = k * unat (costs t)"
      using small by (intro unat_of_nat_mult) simp
    then show ?thesis
      using S[of t] by simp
  qed
  show ?case
  proof (cases i)
    case 0
    then show ?thesis
      using cg less.prems line[of j DELETE] by (simp add: cost_grid_def)
  next
    case (Suc i')
    show ?thesis
    proof (cases j)
      case 0
      then show ?thesis
        using cg less.prems line[of i INSERT] by (simp add: cost_grid_def)
    next
      case (Suc j')
      have i': "i' < n" and j': "j' < m"
        using less.prems \<open>i = Suc i'\<close> Suc by simp_all
      have eq: "C i j = min (C i' (Suc j') + costs INSERT)
                          (min (C (Suc i') j' + costs DELETE) (C i' j' + costs (rt i' j')))"
        using cg i' j' \<open>i = Suc i'\<close> Suc by (simp add: cost_grid_def)
      have step: "Suc (max a b) * ?S \<le> unat (C a b + costs t)"
        if "a \<le> n" "b \<le> m" "a + b < i + j" for a b t
      proof -
        have "unat (C a b) \<le> (a + b) * K"
          using cost_grid_bound[OF cg _ K, of a b] that by (simp add: min_def)
        moreover have "Suc (a + b) * K \<le> (n + m) * K"
          using that less.prems by (intro mult_le_mono1) simp
        ultimately have "unat (C a b) + unat (costs t) < 2 ^ 32"
          using K[of t] small by simp
        then have "unat (C a b + costs t) = unat (C a b) + unat (costs t)"
          by (rule unat_add_exact)
        moreover have "max a b * ?S \<le> unat (C a b)"
          using less.hyps[of a b] that by simp
        ultimately show ?thesis
          using S[of t] by simp
      qed
      have via: "max i j * ?S \<le> unat (C a b + costs t)"
        if "a \<le> n" "b \<le> m" "a + b < i + j" "max i j \<le> Suc (max a b)" for a b t
      proof -
        have "max i j * ?S \<le> Suc (max a b) * ?S"
          using that(4) by (rule mult_le_mono1)
        then show ?thesis
          using step[OF that(1-3), of t] by (rule order_trans)
      qed
      have "max i j * ?S \<le> unat (C i' (Suc j') + costs INSERT)"
        using i' j' \<open>i = Suc i'\<close> Suc by (intro via) simp_all
      moreover have "max i j * ?S \<le> unat (C (Suc i') j' + costs DELETE)"
        using i' j' \<open>i = Suc i'\<close> Suc by (intro via) simp_all
      moreover have "max i j * ?S \<le> unat (C i' j' + costs (rt i' j'))"
        using i' j' \<open>i = Suc i'\<close> Suc by (intro via) simp_all
      ultimately show ?thesis
        unfolding eq by (simp add: min_def)
    qed
  qed
qed

lemma diagonal_candidates:
  assumes f: "filled str str costs M"
    and cheapest: "\<And>t. costs SKIP \<le> costs t"
    and K: "\<And>t. unat (costs t) \<le> K" and small: "2 * length str * K < 2 ^ 32"
    and k: "k < length str" and IH: "unat (cost (M ! k ! k)) = k * unat (costs SKIP)"
  shows "unat (cost (M ! k ! k) + costs SKIP) = Suc k * unat (costs SKIP)"
    and "cost (M ! k ! k) + costs SKIP \<le> cost (M ! k ! Suc k) + costs INSERT"
    and "cost (M ! k ! k) + costs SKIP \<le> cost (M ! Suc k ! k) + costs DELETE"
proof -
  let ?n = "length str" and ?S = "unat (costs SKIP)"
  let ?C = "\<lambda>i j. cost (M ! i ! j)"
  let ?rt = "\<lambda>i j. if str ! j = str ! i then SKIP else REPLACE"
  have cg: "cost_grid min costs ?rt ?C ?n ?n"
    using f by (rule filled_cost_grid)
  have small': "(?n + ?n) * K < 2 ^ 32"
    using small by (simp add: mult_2)
  have "Suc k * ?S \<le> Suc k * K"
    using K[of SKIP] by (intro mult_le_mono2)
  also have "\<dots> \<le> (?n + ?n) * K"
    using k by (intro mult_le_mono1) simp
  finally have "unat (?C k k) + ?S < 2 ^ 32"
    using IH small' by simp
  then show rep: "unat (?C k k + costs SKIP) = Suc k * ?S"
    using IH by (simp add: unat_add_exact)
  have far: "Suc k * ?S \<le> unat (?C a b + costs t)"
    if "a \<le> ?n" "b \<le> ?n" "a + b < ?n + ?n" "Suc k \<le> Suc (max a b)" for a b t
  proof -
    have "unat (?C a b) \<le> (a + b) * K"
      using cost_grid_bound[OF cg _ K, of a b] that by (simp add: min_def)
    moreover have "Suc (a + b) * K \<le> (?n + ?n) * K"
      using that by (intro mult_le_mono1) simp
    ultimately have "unat (?C a b) + unat (costs t) < 2 ^ 32"
      using K[of t] small' by simp
    then have "unat (?C a b + costs t) = unat (?C a b) + unat (costs t)"
      by (rule unat_add_exact)
    moreover have "max a b * ?S \<le> unat (?C a b)"
      using cost_grid_lower[OF cg cheapest K small', of a b] that by simp
    moreover have "?S \<le> unat (costs t)"
      using cheapest[of t] by (simp add: word_le_nat_alt)
    ultimately have "Suc (max a b) * ?S \<le> unat (?C a b + costs t)"
      by simp
    moreover have "Suc k * ?S \<le> Suc (max a b) * ?S"
      using that(4) by (rule mult_le_mono1)
    ultimately show ?thesis
      by (rule order_trans[rotated])
  qed
  show "?C k k + costs SKIP \<le> ?C k (Suc k) + costs INSERT"
    using far[of k "Suc k" INSERT] k rep by (simp add: word_le_nat_alt)
  show "?C k k + costs SKIP \<le> ?C (Suc k) k + costs DELETE"
    using far[of "Suc k" k DELETE] k rep by (simp add: word_le_nat_alt)
qed

lemma diagonal_cost_cheapest:
  assumes f: "filled str str costs M"
    and cheapest: "\<And>t. costs SKIP \<le> costs t"
    and K: "\<And>t. unat (costs t) \<le> K" and small: "2 * length str * K < 2 ^ 32"
  shows "k \<le> length str \<Longrightarrow> unat (cost (M ! k ! k)) = k * unat (costs SKIP)"
proof (induction k)
  case 0
  then show ?case using f by (simp add: filled_origin EditNode_default_def)
next
  case (Suc k)
  then have k: "k < length str" and IH: "unat (cost (M ! k ! k)) = k * unat (costs SKIP)"
    by simp_all
  note c = diagonal_candidates[OF f cheapest K small k IH]
  have "cost (M ! Suc k ! Suc k) = cost (M ! k ! k) + costs SKIP"
    using f k c(2,3) by (simp add: filled_inner cost_recurrence_node fst_choose_edit min_def)
  then show ?case
    using c(1) by simp
qed

lemma diagonal_node_cheapest:
  assumes f: "filled str str costs M"
    and cheapest: "\<And>t. costs SKIP \<le> costs t"
    and K: "\<And>t. unat (costs t) \<le> K" and small: "2 * length str * K < 2 ^ 32"
    and k: "k < length str"
  shows "edit (M ! Suc k ! Suc k) = \<lparr>type = SKIP, from_ch = str ! k, to_ch = str ! k\<rparr>"
proof -
  have "unat (cost (M ! k ! k)) = k * unat (costs SKIP)"
    using diagonal_cost_cheapest[OF f cheapest K small, of k] k by simp
  note c = diagonal_candidates[OF f cheapest K small k this]
  show ?thesis
    using f k c(2,3)
    by (auto simp: filled_inner recurrence_node_def choose_edit_def EditNode_new_def)
qed

subsection \<open>Sums of costs as natural numbers\<close>

lemma nat_sum_bound:
  assumes "\<And>x. unat (f x :: unsigned) \<le> K"
  shows "sum_list (map (\<lambda>x. unat (f x)) xs) \<le> length xs * K"
proof (induction xs)
  case Nil
  then show ?case by simp
next
  case (Cons x xs)
  then show ?case using assms[of x] by simp
qed

lemma unat_sum_list:
  "sum_list (map (\<lambda>x. unat (f x)) xs) < 2 ^ 32 \<Longrightarrow>
     unat (sum_list (map f xs) :: unsigned) = sum_list (map (\<lambda>x. unat (f x)) xs)"
proof (induction xs)
  case Nil
  then show ?case by simp
next
  case (Cons x xs)
  then have "unat (sum_list (map f xs)) = sum_list (map (\<lambda>x. unat (f x)) xs)"
    by simp
  moreover have "unat (f x) + sum_list (map (\<lambda>x. unat (f x)) xs) < 2 ^ 32"
    using Cons.prems by simp
  ultimately show ?case
    by (simp add: unat_word_ariths)
qed

lemma length_by_kinds:
  "length r \<le> length (filter (\<lambda>e. type e \<noteq> INSERT) r) + length (filter (\<lambda>e. type e \<noteq> DELETE) r)"
  by (induction r) auto

text \<open>
  An alignment of \<open>m\<close> source and \<open>n\<close> target symbols has at most \<open>m + n\<close> operations, so its
  cost as a natural number is the \<^verbatim>\<open>unsigned\<close> one when \<open>(m + n) * K\<close> fits.
\<close>

lemma nat_total_cost:
  fixes c :: EditCosts
  assumes "length (filter (\<lambda>e. type e \<noteq> INSERT) r) = m"
    and "length (filter (\<lambda>e. type e \<noteq> DELETE) r) = n"
    and "\<And>t. unat (c t) \<le> K" and "(m + n) * K < 2 ^ 32"
  shows "sum_list (map (\<lambda>e. unat (c (type e))) r) = unat (sum_list (map (\<lambda>e. c (type e)) r))"
proof -
  have "length r \<le> m + n"
    using length_by_kinds[of r] assms(1,2) by simp
  then have "length r * K \<le> (m + n) * K"
    by (rule mult_le_mono1)
  moreover have "sum_list (map (\<lambda>e. unat (c (type e))) r) \<le> length r * K"
    using assms(3) by (intro nat_sum_bound[where f = "\<lambda>e. c (type e)"])
  ultimately have "sum_list (map (\<lambda>e. unat (c (type e))) r) < 2 ^ 32"
    using assms(4) by linarith
  then show ?thesis
    using unat_sum_list[of "\<lambda>e. c (type e)" r] by simp
qed

text \<open>The first listing satisfies what C1 and C4 say.\<close>

lemma replay_reads_inside_matrix:
  assumes "length from < 2 ^ 32 - 1" and "length to < 2 ^ 32 - 1"
  shows "\<exists>s r tr. build_matrix from to costs = Inr s \<and>
           grid (edit_matrix s) (Suc (length to)) (Suc (length from)) \<and>
           replay s (of_nat (length from)) (of_nat (length to)) []
             = Some (Inr (r, s\<lparr>accesses := accesses s @ tr\<rparr>)) \<and>
           (\<forall>a\<in>set tr. \<exists>r c. a = Read r c \<and> r \<le> length to \<and> c \<le> length from)"
proof -
  obtain s r tr where *:
    "build_matrix from to costs = Inr s" "filled from to costs (edit_matrix s)"
    "run_optimal_edits from to costs = Some (Inr (r, s\<lparr>accesses := accesses s @ tr\<rparr>))"
    "\<forall>a\<in>set tr. \<exists>r c. a = Read r c \<and> r \<le> length to \<and> c \<le> length from"
    using run_optimal_edits_filled[OF assms, of costs] by blast
  then show ?thesis
    by (auto simp: run_optimal_edits_def filled_grid)
qed

lemma length_conservation:
  assumes "length from < 2 ^ 32 - 1" and "length to < 2 ^ 32 - 1"
  shows "\<exists>r. compute_optimal_edits from to costs = Some (Inr r) \<and>
           length (filter (\<lambda>e. type e \<noteq> INSERT) r) = length from \<and>
           length (filter (\<lambda>e. type e \<noteq> DELETE) r) = length to"
proof -
  obtain s r tr where
    "run_optimal_edits from to costs = Some (Inr (r, s\<lparr>accesses := accesses s @ tr\<rparr>))"
    "length (filter (\<lambda>e. type e \<noteq> INSERT) r) = length from"
    "length (filter (\<lambda>e. type e \<noteq> DELETE) r) = length to"
    using run_optimal_edits_filled[OF assms, of costs] by blast
  then show ?thesis
    by (auto simp: compute_optimal_edits_def)
qed

text \<open>
  The bound on the lengths is needed: with a source of \<open>2^32 - 1\<close> characters
  \<open>from_length + 1\<close> wraps around to 0, the rows have no cells and the first assignment to
  the initial row is out of range.
\<close>

lemma length_beyond_unsigned:
  "build_matrix (replicate 4294967295 c) [] costs = Inl OutOfRange"
  by (simp add: build_matrix_def alloc_matrix_def first_row_step_def matrix_set_def char_at_def
      emplace_back_def for_loop.simps)

section \<open>The claims of the specification\<close>

text \<open>
  C1.  The replay loop of the second listing reads \<open>edit_matrix[to_idx + 1][from_idx + 1]\<close>:
  started at the cursor \<open>(to_length, from_length)\<close> of a matrix with \<open>to_length + 1\<close> rows,
  its first read has the row index \<open>to_length + 1\<close>, outside the matrix, whenever one of the
  two strings is not empty.  (The replay loop of the first listing stays inside the matrix
  and ends: \<open>replay_reads_inside_matrix\<close>.)
\<close>

theorem replay2_first_read_outside_matrix:
  assumes "length from < 2 ^ 32 - 1" and "length to < 2 ^ 32 - 1" and "from \<noteq> [] \<or> to \<noteq> []"
  shows "\<exists>s. build_matrix2 from to costs = Inr s \<and>
           length (edit_matrix s) = Suc (length to) \<and>
           matrix_get s (of_nat (length to) + 1) (of_nat (length from) + 1) = Inl OutOfRange \<and>
           compute_optimal_edits2 from to costs = Some (Inl OutOfRange)"
proof -
  obtain s where
    "build_matrix2 from to costs = Inr s" "filled2 from to costs (edit_matrix s)"
    "matrix_get s (of_nat (length to) + 1) (of_nat (length from) + 1) = Inl OutOfRange"
    "run_optimal_edits2 from to costs = Some (Inl OutOfRange)"
    using run_optimal_edits2_out_of_range[OF assms, of costs] by blast
  then show ?thesis
    by (auto simp: compute_optimal_edits2_def filled2_def grid_def)
qed

theorem replay2_first_read_outside_matrix_witness:
  "length ''a'' < 2 ^ 32 - 1 \<and> length '''' < 2 ^ 32 - 1 \<and> ''a'' \<noteq> [] \<and>
   (\<exists>s. build_matrix2 ''a'' '''' std_edit_costs2 = Inr s \<and>
      length (edit_matrix s) = Suc (length '''') \<and>
      matrix_get s (of_nat (length '''') + 1) (of_nat (length ''a'') + 1) = Inl OutOfRange \<and>
      compute_optimal_edits2 ''a'' '''' std_edit_costs2 = Some (Inl OutOfRange))"
  using replay2_first_read_outside_matrix[of "''a''" "''''" std_edit_costs2] by simp

text \<open>
  C2, as the code has it.  Let no operation be cheaper than a \<open>SKIP\<close>, and let the cost of
  \<open>SKIP\<close> be 0 or no cost wrap around (every cost at most \<open>K\<close> and \<open>2 * length s * K < 2^32\<close>).
  Then aligning a string \<open>s\<close> of length below \<open>2^32 - 1\<close> with itself yields, in the first
  listing, exactly one \<open>SKIP\<close> for each symbol, carrying that symbol twice; the total cost is
  \<open>length s * costs SKIP\<close>, which is 0 when \<open>SKIP\<close> costs nothing.
\<close>

theorem identity_alignment:
  assumes "length str < 2 ^ 32 - 1"
    and "\<forall>t. costs SKIP \<le> costs t"
    and "costs SKIP = 0 \<or> ((\<forall>t. unat (costs t) \<le> K) \<and> 2 * length str * K < 2 ^ 32)"
  shows "compute_optimal_edits str str costs
           = Some (Inr (map (\<lambda>c. \<lparr>type = SKIP, from_ch = c, to_ch = c\<rparr>) str)) \<and>
         sum_list (map (\<lambda>e. unat (costs (type e)))
           (map (\<lambda>c. \<lparr>type = SKIP, from_ch = c, to_ch = c\<rparr>) str)) = length str * unat (costs SKIP)"
proof -
  have "edit (M ! Suc k ! Suc k) = \<lparr>type = SKIP, from_ch = str ! k, to_ch = str ! k\<rparr>"
    if f: "filled str str costs M" and k: "k < length str" for M k
    using assms(3)
  proof
    assume "costs SKIP = 0"
    with f show ?thesis using k by (rule diagonal_node)
  next
    assume "(\<forall>t. unat (costs t) \<le> K) \<and> 2 * length str * K < 2 ^ 32"
    then show ?thesis
      using diagonal_node_cheapest[OF f _ _ _ k, of K] assms(2) by blast
  qed
  then have "compute_optimal_edits str str costs
           = Some (Inr (map (\<lambda>c. \<lparr>type = SKIP, from_ch = c, to_ch = c\<rparr>) str))"
    using assms(1) by (intro identity_run)
  moreover have "sum_list (map (\<lambda>e. unat (costs (type e)))
           (map (\<lambda>c. \<lparr>type = SKIP, from_ch = c, to_ch = c\<rparr>) str)) = length str * unat (costs SKIP)"
    by (simp add: comp_def sum_list_triv)
  ultimately show ?thesis
    by simp
qed

theorem identity_alignment_witness:
  "length ''abc'' < 2 ^ 32 - 1 \<and> (\<forall>t. std_edit_costs SKIP \<le> std_edit_costs t) \<and>
   (\<forall>t. unat (std_edit_costs t) \<le> 15) \<and> 2 * length ''abc'' * 15 < 2 ^ 32 \<and>
   compute_optimal_edits ''abc'' ''abc'' std_edit_costs
     = Some (Inr [\<lparr>type = SKIP, from_ch = CHR ''a'', to_ch = CHR ''a''\<rparr>,
                  \<lparr>type = SKIP, from_ch = CHR ''b'', to_ch = CHR ''b''\<rparr>,
                  \<lparr>type = SKIP, from_ch = CHR ''c'', to_ch = CHR ''c''\<rparr>]) \<and>
   length ''abc'' * unat (std_edit_costs SKIP) = 3"
proof -
  have c: "\<forall>t. std_edit_costs SKIP \<le> std_edit_costs t"
    by (auto simp: std_edit_costs_def split: EditType.split)
  have h: "\<forall>t. unat (std_edit_costs t) \<le> 15"
    by (auto simp: std_edit_costs_def split: EditType.split)
  have s: "unat (std_edit_costs SKIP) = 1"
    by (simp add: std_edit_costs_def)
  show ?thesis
    using identity_alignment[of "''abc''" std_edit_costs 15] c h s by simp
qed

text \<open>
  The claim as written fails: with the standard costs (\<open>SKIP\<close> costs 1) the three skips of
  \<^verbatim>\<open>abc\<close> against \<^verbatim>\<open>abc\<close> cost 3, and with a \<open>SKIP\<close> dearer than an insertion and a deletion
  together the alignment of \<^verbatim>\<open>a\<close> with itself is an insertion and a deletion.
\<close>

theorem identity_counterexample:
  "compute_optimal_edits ''abc'' ''abc'' std_edit_costs
     = Some (Inr [\<lparr>type = SKIP, from_ch = CHR ''a'', to_ch = CHR ''a''\<rparr>,
                  \<lparr>type = SKIP, from_ch = CHR ''b'', to_ch = CHR ''b''\<rparr>,
                  \<lparr>type = SKIP, from_ch = CHR ''c'', to_ch = CHR ''c''\<rparr>]) \<and>
   std_edit_costs SKIP + std_edit_costs SKIP + std_edit_costs SKIP = 3 \<and>
   compute_optimal_edits ''a'' ''a'' (std_edit_costs(SKIP := 100))
     = Some (Inr [\<lparr>type = INSERT, from_ch = CHR 0x00, to_ch = CHR ''a''\<rparr>,
                  \<lparr>type = DELETE, from_ch = CHR ''a'', to_ch = CHR ''a''\<rparr>])"
  by (simp add: compute_optimal_edits_def run_optimal_edits_def build_matrix_def alloc_matrix_def
      first_row_step_def row_step_def cell_step_def choose_edit_def matrix_get_def matrix_set_def
      char_at_def emplace_back_def EditNode_new_def EditNode_default_def std_edit_costs_def
      replay.simps for_loop.simps Let_def)

text \<open>
  C3.  For every source, target and cost model (the lengths of both strings below
  \<open>2^32 - 1\<close>, so that they and the matrix dimensions fit \<^verbatim>\<open>unsigned\<close>), the first listing
  returns an alignment, and the sum of the configured costs of its operations, taken in
  \<^verbatim>\<open>unsigned\<close> arithmetic as the matrix costs are, equals the cost stored in the terminal
  cell \<open>edit_matrix[to_length][from_length]\<close>.  When every cost is at most \<open>K\<close> and
  \<open>(m + n) * K < 2^32\<close>, nothing wraps around and the sum as a natural number is that cost.
\<close>

theorem total_cost_matches_terminal_cell:
  assumes "length from < 2 ^ 32 - 1" and "length to < 2 ^ 32 - 1"
  shows "\<exists>s r. build_matrix from to costs = Inr s \<and>
           compute_optimal_edits from to costs = Some (Inr r) \<and>
           sum_list (map (\<lambda>e. costs (type e)) r) = cost (edit_matrix s ! length to ! length from) \<and>
           ((\<forall>t. unat (costs t) \<le> K) \<and> (length from + length to) * K < 2 ^ 32 \<longrightarrow>
              sum_list (map (\<lambda>e. unat (costs (type e))) r)
                = unat (cost (edit_matrix s ! length to ! length from)))"
proof -
  obtain s r tr where *:
    "build_matrix from to costs = Inr s"
    "run_optimal_edits from to costs = Some (Inr (r, s\<lparr>accesses := accesses s @ tr\<rparr>))"
    "length (filter (\<lambda>e. type e \<noteq> INSERT) r) = length from"
    "length (filter (\<lambda>e. type e \<noteq> DELETE) r) = length to"
    "sum_list (map (\<lambda>e. costs (type e)) r) = cost (edit_matrix s ! length to ! length from)"
    using run_optimal_edits_filled[OF assms, of costs] by blast
  have "sum_list (map (\<lambda>e. unat (costs (type e))) r)
          = unat (cost (edit_matrix s ! length to ! length from))"
    if "\<forall>t. unat (costs t) \<le> K" "(length from + length to) * K < 2 ^ 32"
    using nat_total_cost[where c = costs, OF *(3,4) _ that(2)] that(1) *(5) by simp
  moreover have "compute_optimal_edits from to costs = Some (Inr r)"
    using *(2) by (simp add: compute_optimal_edits_def)
  ultimately show ?thesis
    using *(1,5) by blast
qed

theorem total_cost_matches_terminal_cell_witness:
  "length ''ab'' < 2 ^ 32 - 1 \<and> length ''b'' < 2 ^ 32 - 1 \<and>
   (\<forall>t. unat (std_edit_costs t) \<le> 15) \<and> (length ''ab'' + length ''b'') * 15 < 2 ^ 32 \<and>
   (\<exists>s r. build_matrix ''ab'' ''b'' std_edit_costs = Inr s \<and>
      compute_optimal_edits ''ab'' ''b'' std_edit_costs = Some (Inr r) \<and>
      sum_list (map (\<lambda>e. std_edit_costs (type e)) r) = cost (edit_matrix s ! length ''b'' ! length ''ab'') \<and>
      sum_list (map (\<lambda>e. unat (std_edit_costs (type e))) r)
        = unat (cost (edit_matrix s ! length ''b'' ! length ''ab'')))"
proof -
  have h: "\<forall>t. unat (std_edit_costs t) \<le> 15"
    by (auto simp: std_edit_costs_def split: EditType.split)
  show ?thesis
    using total_cost_matches_terminal_cell[of "''ab''" "''b''" std_edit_costs 15] h by simp
qed

text \<open>
  C4.  The second listing on \<^verbatim>\<open>ab\<close> and \<^verbatim>\<open>a\<close>: the replay reads outside the matrix and no
  alignment is returned.  (For the first listing the two counts are the two lengths:
  \<open>length_conservation\<close>.)
\<close>

theorem compute_optimal_edits2_no_alignment:
  "compute_optimal_edits2 ''ab'' ''a'' std_edit_costs2 = Some (Inl OutOfRange)"
  by (simp add: compute_optimal_edits2_def run_optimal_edits2_def build_matrix2_def alloc_matrix2_def
      first_row_step2_def row_step2_def cell_step2_def choose_edit2_def matrix_get_def matrix_set_def
      char_at_def emplace_back_def EditNode2_new_def EditNode2_default_def std_edit_costs2_def
      replay2.simps for_loop.simps Let_def)

text \<open>
  C5, as the code has it.  The comparisons are strict, so on equal costs the later candidate
  wins: \<open>INSERT\<close> is chosen only when its cost is strictly below (second listing: strictly
  above) both others, \<open>DELETE\<close> only when its cost is strictly below (above) the
  replace/skip candidate and not above (below) the insertion's, and the replace/skip
  candidate in every other case, so in every tie it is in.  The chosen cost is the least
  (greatest) of the three.
\<close>

theorem tie_break_order:
  assumes "t = SKIP \<or> t = REPLACE"
  shows "(snd (choose_edit i d r t) = INSERT \<longleftrightarrow> i < d \<and> i < r) \<and>
         (snd (choose_edit i d r t) = DELETE \<longleftrightarrow> d \<le> i \<and> d < r) \<and>
         (snd (choose_edit i d r t) = t \<longleftrightarrow> r \<le> i \<and> r \<le> d) \<and>
         fst (choose_edit i d r t) = min i (min d r) \<and>
         (snd (choose_edit2 i d r t) = INSERT \<longleftrightarrow> d < i \<and> r < i) \<and>
         (snd (choose_edit2 i d r t) = DELETE \<longleftrightarrow> i \<le> d \<and> r < d) \<and>
         (snd (choose_edit2 i d r t) = t \<longleftrightarrow> i \<le> r \<and> d \<le> r) \<and>
         fst (choose_edit2 i d r t) = max i (max d r)"
  using assms by (auto simp: choose_edit_def choose_edit2_def min_def max_def)

theorem tie_break_order_witness:
  "(SKIP = SKIP \<or> SKIP = REPLACE) \<and>
   (snd (choose_edit 5 5 5 SKIP) = SKIP \<longleftrightarrow> (5 :: unsigned) \<le> 5 \<and> (5 :: unsigned) \<le> 5) \<and>
   choose_edit 5 5 5 SKIP = (5, SKIP) \<and> choose_edit2 5 5 5 SKIP = (5, SKIP)"
  using tie_break_order[of SKIP 5 5 5] by (simp add: choose_edit_def choose_edit2_def)

text \<open>
  Against the claim: an insertion and a deletion of equal cost give \<open>DELETE\<close>; an insertion
  or a deletion that ties with the replace/skip candidate loses to it; in both listings.
\<close>

theorem tie_break_counterexample:
  "choose_edit 5 5 9 REPLACE = (5, DELETE) \<and> choose_edit 5 9 5 SKIP = (5, SKIP) \<and>
   choose_edit 9 5 5 REPLACE = (5, REPLACE) \<and>
   choose_edit2 9 9 5 REPLACE = (9, DELETE) \<and> choose_edit2 9 5 9 SKIP = (9, SKIP) \<and>
   choose_edit2 5 9 9 REPLACE = (9, REPLACE)"
  by (simp add: choose_edit_def choose_edit2_def)

text \<open>
  C6, as the code has it.  For strings of length below \<open>2^32 - 1\<close> the construction ends, and
  in both listings the cell \<open>(0, 0)\<close> holds the cost 0 with a \<open>SKIP\<close>, every cell \<open>(0, j)\<close>
  with \<open>1 \<le> j \<le> m\<close> holds the cost \<open>j * costs DELETE\<close> (in \<^verbatim>\<open>unsigned\<close> arithmetic) with a
  \<open>DELETE\<close>, and every cell \<open>(i, 0)\<close> with \<open>1 \<le> i \<le> n\<close> holds the cost \<open>i * costs INSERT\<close>
  with an \<open>INSERT\<close> that carries \<open>to[i - 1]\<close>.  The \<open>DELETE\<close> of the first listing carries
  \<open>from[j - 1]\<close>; the one of the second listing, whose operations hold one character only,
  carries the character 0.
\<close>

theorem initial_cells:
  assumes "length from < 2 ^ 32 - 1" and "length to < 2 ^ 32 - 1"
  shows "\<exists>s s2. build_matrix from to costs = Inr s \<and> build_matrix2 from to costs = Inr s2 \<and>
     edit_matrix s ! 0 ! 0 = \<lparr>edit = \<lparr>type = SKIP, from_ch = CHR 0x00, to_ch = CHR 0x00\<rparr>, cost = 0\<rparr> \<and>
     (\<forall>j\<in>{1..length from}. edit_matrix s ! 0 ! j =
        \<lparr>edit = \<lparr>type = DELETE, from_ch = from ! (j - 1), to_ch = CHR 0x00\<rparr>,
         cost = of_nat j * costs DELETE\<rparr>) \<and>
     (\<forall>i\<in>{1..length to}. edit_matrix s ! i ! 0 =
        \<lparr>edit = \<lparr>type = INSERT, from_ch = CHR 0x00, to_ch = to ! (i - 1)\<rparr>,
         cost = of_nat i * costs INSERT\<rparr>) \<and>
     edit_matrix s2 ! 0 ! 0 = \<lparr>edit2 = \<lparr>type2 = SKIP, ch2 = CHR 0x00\<rparr>, cost2 = 0\<rparr> \<and>
     (\<forall>j\<in>{1..length from}. edit_matrix s2 ! 0 ! j =
        \<lparr>edit2 = \<lparr>type2 = DELETE, ch2 = CHR 0x00\<rparr>, cost2 = of_nat j * costs DELETE\<rparr>) \<and>
     (\<forall>i\<in>{1..length to}. edit_matrix s2 ! i ! 0 =
        \<lparr>edit2 = \<lparr>type2 = INSERT, ch2 = to ! (i - 1)\<rparr>, cost2 = of_nat i * costs INSERT\<rparr>)"
proof -
  have m: "Suc (length from) < 2 ^ 32" and n: "Suc (length to) < 2 ^ 32"
    using assms by simp_all
  obtain s where s: "build_matrix from to costs = Inr s" "filled from to costs (edit_matrix s)"
    using build_matrix_filled[OF m n] by blast
  obtain s2 where s2: "build_matrix2 from to costs = Inr s2" "filled2 from to costs (edit_matrix s2)"
    using build_matrix_filled2[OF m n] by blast
  have "edit_matrix s ! 0 ! j =
          \<lparr>edit = \<lparr>type = DELETE, from_ch = from ! (j - 1), to_ch = CHR 0x00\<rparr>,
           cost = of_nat j * costs DELETE\<rparr>"
    if "j \<in> {1..length from}" for j
    using that filled_first_row[OF s(2), of "j - 1"] by (cases j) (simp_all add: EditNode_new_def del: of_nat_Suc)
  moreover have "edit_matrix s ! i ! 0 =
          \<lparr>edit = \<lparr>type = INSERT, from_ch = CHR 0x00, to_ch = to ! (i - 1)\<rparr>,
           cost = of_nat i * costs INSERT\<rparr>"
    if "i \<in> {1..length to}" for i
    using that filled_first_column[OF s(2), of "i - 1"] by (cases i) (simp_all add: EditNode_new_def del: of_nat_Suc)
  moreover have "edit_matrix s2 ! 0 ! j =
          \<lparr>edit2 = \<lparr>type2 = DELETE, ch2 = CHR 0x00\<rparr>, cost2 = of_nat j * costs DELETE\<rparr>"
    if "j \<in> {1..length from}" for j
    using that filled_first_row2[OF s2(2), of "j - 1"] by (cases j) (simp_all add: EditNode2_new_def del: of_nat_Suc)
  moreover have "edit_matrix s2 ! i ! 0 =
          \<lparr>edit2 = \<lparr>type2 = INSERT, ch2 = to ! (i - 1)\<rparr>, cost2 = of_nat i * costs INSERT\<rparr>"
    if "i \<in> {1..length to}" for i
    using that filled_first_column2[OF s2(2), of "i - 1"] by (cases i) (simp_all add: EditNode2_new_def del: of_nat_Suc)
  moreover have "edit_matrix s ! 0 ! 0 = \<lparr>edit = \<lparr>type = SKIP, from_ch = CHR 0x00, to_ch = CHR 0x00\<rparr>, cost = 0\<rparr>"
    using filled_origin[OF s(2)] by (simp add: EditNode_default_def)
  moreover have "edit_matrix s2 ! 0 ! 0 = \<lparr>edit2 = \<lparr>type2 = SKIP, ch2 = CHR 0x00\<rparr>, cost2 = 0\<rparr>"
    using filled_origin2[OF s2(2)] by (simp add: EditNode2_default_def)
  ultimately show ?thesis
    using s(1) s2(1) by blast
qed

theorem initial_cells_witness:
  "length ''ab'' < 2 ^ 32 - 1 \<and> length ''c'' < 2 ^ 32 - 1 \<and>
   (\<exists>s s2. build_matrix ''ab'' ''c'' std_edit_costs = Inr s \<and>
      build_matrix2 ''ab'' ''c'' std_edit_costs = Inr s2 \<and>
      edit_matrix s ! 0 ! 2 =
        \<lparr>edit = \<lparr>type = DELETE, from_ch = CHR ''b'', to_ch = CHR 0x00\<rparr>, cost = 20\<rparr> \<and>
      edit_matrix s ! 1 ! 0 =
        \<lparr>edit = \<lparr>type = INSERT, from_ch = CHR 0x00, to_ch = CHR ''c''\<rparr>, cost = 15\<rparr> \<and>
      edit_matrix s2 ! 0 ! 2 = \<lparr>edit2 = \<lparr>type2 = DELETE, ch2 = CHR 0x00\<rparr>, cost2 = 20\<rparr> \<and>
      edit_matrix s2 ! 1 ! 0 = \<lparr>edit2 = \<lparr>type2 = INSERT, ch2 = CHR ''c''\<rparr>, cost2 = 15\<rparr>)"
proof -
  have "length ''ab'' < 2 ^ 32 - 1" "length ''c'' < 2 ^ 32 - 1"
    by simp_all
  from initial_cells[OF this, of std_edit_costs]
  obtain s s2 where *: "build_matrix ''ab'' ''c'' std_edit_costs = Inr s"
    "build_matrix2 ''ab'' ''c'' std_edit_costs = Inr s2"
    "\<forall>j\<in>{1..length ''ab''}. edit_matrix s ! 0 ! j =
        \<lparr>edit = \<lparr>type = DELETE, from_ch = ''ab'' ! (j - 1), to_ch = CHR 0x00\<rparr>,
         cost = of_nat j * std_edit_costs DELETE\<rparr>"
    "\<forall>i\<in>{1..length ''c''}. edit_matrix s ! i ! 0 =
        \<lparr>edit = \<lparr>type = INSERT, from_ch = CHR 0x00, to_ch = ''c'' ! (i - 1)\<rparr>,
         cost = of_nat i * std_edit_costs INSERT\<rparr>"
    "\<forall>j\<in>{1..length ''ab''}. edit_matrix s2 ! 0 ! j =
        \<lparr>edit2 = \<lparr>type2 = DELETE, ch2 = CHR 0x00\<rparr>, cost2 = of_nat j * std_edit_costs DELETE\<rparr>"
    "\<forall>i\<in>{1..length ''c''}. edit_matrix s2 ! i ! 0 =
        \<lparr>edit2 = \<lparr>type2 = INSERT, ch2 = ''c'' ! (i - 1)\<rparr>, cost2 = of_nat i * std_edit_costs INSERT\<rparr>"
    by blast
  have "edit_matrix s ! 0 ! 2 =
        \<lparr>edit = \<lparr>type = DELETE, from_ch = CHR ''b'', to_ch = CHR 0x00\<rparr>, cost = 20\<rparr>"
    using *(3)[rule_format, of 2] by (simp add: std_edit_costs_def)
  moreover have "edit_matrix s ! 1 ! 0 =
        \<lparr>edit = \<lparr>type = INSERT, from_ch = CHR 0x00, to_ch = CHR ''c''\<rparr>, cost = 15\<rparr>"
    using *(4)[rule_format, of 1] by (simp add: std_edit_costs_def)
  moreover have "edit_matrix s2 ! 0 ! 2 = \<lparr>edit2 = \<lparr>type2 = DELETE, ch2 = CHR 0x00\<rparr>, cost2 = 20\<rparr>"
    using *(5)[rule_format, of 2] by (simp add: std_edit_costs_def)
  moreover have "edit_matrix s2 ! 1 ! 0 = \<lparr>edit2 = \<lparr>type2 = INSERT, ch2 = CHR ''c''\<rparr>, cost2 = 15\<rparr>"
    using *(6)[rule_format, of 1] by (simp add: std_edit_costs_def)
  ultimately show ?thesis
    using *(1,2) by simp
qed

text \<open>
  Against the claim: in the second listing the \<open>DELETE\<close> in the cell \<open>(0, 1)\<close> for the
  source \<^verbatim>\<open>a\<close> carries the character 0, not \<^verbatim>\<open>a\<close>.
\<close>

theorem initial_row_counterexample:
  "map_sum id edit_matrix (build_matrix2 ''a'' '''' std_edit_costs2)
     = Inr [[\<lparr>edit2 = \<lparr>type2 = SKIP, ch2 = CHR 0x00\<rparr>, cost2 = 0\<rparr>,
             \<lparr>edit2 = \<lparr>type2 = DELETE, ch2 = CHR 0x00\<rparr>, cost2 = 10\<rparr>]] \<and>
   CHR 0x00 \<noteq> ''a'' ! 0"
  by code_simp

text \<open>
  C7, as the code has it.  For every operation of the alignment the program prints one
  line: the three-letter name of the kind, then, in the first listing, a blank and the
  source symbol unless the kind is \<open>INSERT\<close>, and a blank and the target symbol only when the
  kind is \<open>INSERT\<close> or \<open>REPLACE\<close>; so a \<open>SKIP\<close> line and a \<open>DELETE\<close> line show the source symbol
  alone, an \<open>INSERT\<close> line the target symbol alone, a \<open>REPLACE\<close> line both.  The second
  listing prints the name, a blank and the one character the operation holds, for every
  kind.
\<close>

theorem printed_lines:
  assumes "compute_optimal_edits src tgt std_edit_costs = Some (Inr edits)"
  shows "main [prog, src, tgt] =
           Some (Inr \<lparr>stdout = concat (map (\<lambda>e.
                        (case type e of
                           SKIP \<Rightarrow> ''SKP '' @ [from_ch e]
                         | DELETE \<Rightarrow> ''DEL '' @ [from_ch e]
                         | INSERT \<Rightarrow> ''INS '' @ [to_ch e]
                         | REPLACE \<Rightarrow> ''REP '' @ [from_ch e] @ '' '' @ [to_ch e]) @ [CHR 0x0A]) edits),
                      stderr = [], status = 0\<rparr>) \<and>
         print_edits2 edits2 =
           concat (map (\<lambda>e.
             (case type2 e of SKIP \<Rightarrow> ''SKP '' | DELETE \<Rightarrow> ''DEL '' | INSERT \<Rightarrow> ''INS ''
              | REPLACE \<Rightarrow> ''REP '') @ [ch2 e] @ [CHR 0x0A]) edits2)"
proof -
  have "print_edits es = concat (map (\<lambda>e.
          (case type e of
             SKIP \<Rightarrow> ''SKP '' @ [from_ch e]
           | DELETE \<Rightarrow> ''DEL '' @ [from_ch e]
           | INSERT \<Rightarrow> ''INS '' @ [to_ch e]
           | REPLACE \<Rightarrow> ''REP '' @ [from_ch e] @ '' '' @ [to_ch e]) @ [CHR 0x0A]) es)" for es
    by (induction es) (simp_all add: edit_rep_def edit_type_names_def split: EditType.split)
  moreover have "print_edits2 es = concat (map (\<lambda>e.
             (case type2 e of SKIP \<Rightarrow> ''SKP '' | DELETE \<Rightarrow> ''DEL '' | INSERT \<Rightarrow> ''INS ''
              | REPLACE \<Rightarrow> ''REP '') @ [ch2 e] @ [CHR 0x0A]) es)" for es
    by (induction es) (simp_all add: edit_type_names_def split: EditType.split)
  ultimately show ?thesis
    using assms by (simp add: main_def)
qed

theorem printed_lines_witness:
  "compute_optimal_edits ''ab'' ''b'' std_edit_costs
     = Some (Inr [\<lparr>type = DELETE, from_ch = CHR ''a'', to_ch = CHR 0x00\<rparr>,
                  \<lparr>type = SKIP, from_ch = CHR ''b'', to_ch = CHR ''b''\<rparr>]) \<and>
   main [''optedit'', ''ab'', ''b'']
     = Some (Inr \<lparr>stdout = ''DEL a'' @ [CHR 0x0A] @ ''SKP b'' @ [CHR 0x0A], stderr = [], status = 0\<rparr>)"
proof -
  have run: "compute_optimal_edits ''ab'' ''b'' std_edit_costs
     = Some (Inr [\<lparr>type = DELETE, from_ch = CHR ''a'', to_ch = CHR 0x00\<rparr>,
                  \<lparr>type = SKIP, from_ch = CHR ''b'', to_ch = CHR ''b''\<rparr>])"
    by code_simp
  show ?thesis
    using printed_lines[OF run, of "''optedit''" "[]"] run by simp
qed

text \<open>
  Against the claim: the line of a \<open>SKIP\<close> shows one symbol, not two, and so does the line
  of a \<open>REPLACE\<close> in the second listing.
\<close>

theorem skip_line_counterexample:
  "edit_rep \<lparr>type = SKIP, from_ch = CHR ''a'', to_ch = CHR ''a''\<rparr> = ''SKP a'' \<and>
   print_edits2 [\<lparr>type2 = REPLACE, ch2 = CHR ''b''\<rparr>] = ''REP b'' @ [CHR 0x0A]"
  by (simp add: edit_rep_def edit_type_names_def)

text \<open>
  C8, as the code has it.  Let the cost of \<open>REPLACE\<close> grow from \<open>costs REPLACE\<close> to \<open>r'\<close> with
  the other three costs fixed, on strings of length below \<open>2^32 - 1\<close>, and let no cost that
  the larger model can reach leave the range of \<^verbatim>\<open>unsigned\<close>: every cost of the model is at
  most \<open>K\<close> and \<open>(m + n) * K < 2^32\<close>.  Then the total cost of the alignment the first
  listing returns, summed as natural numbers, does not decrease; and the cost in the
  terminal cell of the second listing, which takes the greatest candidate, does not
  decrease either.
\<close>

theorem replace_cost_monotone:
  assumes "length from < 2 ^ 32 - 1" and "length to < 2 ^ 32 - 1"
    and "costs REPLACE \<le> r'"
    and "\<forall>t. unat ((costs(REPLACE := r')) t) \<le> K"
    and "(length from + length to) * K < 2 ^ 32"
  shows "\<exists>a a' s2 s2'.
      compute_optimal_edits from to costs = Some (Inr a) \<and>
      compute_optimal_edits from to (costs(REPLACE := r')) = Some (Inr a') \<and>
      sum_list (map (\<lambda>e. unat (costs (type e))) a)
        \<le> sum_list (map (\<lambda>e. unat ((costs(REPLACE := r')) (type e))) a') \<and>
      build_matrix2 from to costs = Inr s2 \<and>
      build_matrix2 from to (costs(REPLACE := r')) = Inr s2' \<and>
      cost2 (edit_matrix s2 ! length to ! length from)
        \<le> cost2 (edit_matrix s2' ! length to ! length from)"
proof -
  let ?costs' = "costs(REPLACE := r')"
  let ?n = "length to" and ?m = "length from"
  have m: "Suc ?m < 2 ^ 32" and n: "Suc ?n < 2 ^ 32"
    using assms(1,2) by simp_all
  have K': "unat (?costs' t) \<le> K" for t
    using assms(4) by blast
  have K: "unat (costs t) \<le> K" for t
    using K'[of t] K'[of REPLACE] assms(3) by (cases "t = REPLACE") (simp_all add: word_le_nat_alt)
  obtain s a tr where a:
    "filled from to costs (edit_matrix s)"
    "run_optimal_edits from to costs = Some (Inr (a, s\<lparr>accesses := accesses s @ tr\<rparr>))"
    "length (filter (\<lambda>e. type e \<noteq> INSERT) a) = ?m"
    "length (filter (\<lambda>e. type e \<noteq> DELETE) a) = ?n"
    "sum_list (map (\<lambda>e. costs (type e)) a) = cost (edit_matrix s ! ?n ! ?m)"
    using run_optimal_edits_filled[OF assms(1,2), of costs] by blast
  obtain s' a' tr' where a':
    "filled from to ?costs' (edit_matrix s')"
    "run_optimal_edits from to ?costs' = Some (Inr (a', s'\<lparr>accesses := accesses s' @ tr'\<rparr>))"
    "length (filter (\<lambda>e. type e \<noteq> INSERT) a') = ?m"
    "length (filter (\<lambda>e. type e \<noteq> DELETE) a') = ?n"
    "sum_list (map (\<lambda>e. ?costs' (type e)) a') = cost (edit_matrix s' ! ?n ! ?m)"
    using run_optimal_edits_filled[OF assms(1,2), of ?costs'] by blast
  obtain s2 where s2: "build_matrix2 from to costs = Inr s2" "filled2 from to costs (edit_matrix s2)"
    using build_matrix_filled2[OF m n] by blast
  obtain s2' where s2': "build_matrix2 from to ?costs' = Inr s2'" "filled2 from to ?costs' (edit_matrix s2')"
    using build_matrix_filled2[OF m n] by blast
  have "cost (edit_matrix s ! ?n ! ?m) \<le> cost (edit_matrix s' ! ?n ! ?m)"
    using terminal_cost_mono[OF filled_cost_grid[OF a(1)] filled_cost_grid[OF a'(1)] _ assms(3,4,5)]
    by simp
  then have "sum_list (map (\<lambda>e. unat (costs (type e))) a)
               \<le> sum_list (map (\<lambda>e. unat (?costs' (type e))) a')"
    using nat_total_cost[where c = costs, OF a(3,4) K assms(5)]
      nat_total_cost[where c = ?costs', OF a'(3,4) K' assms(5)] a(5) a'(5)
    by (simp add: word_le_nat_alt)
  moreover have "cost2 (edit_matrix s2 ! ?n ! ?m) \<le> cost2 (edit_matrix s2' ! ?n ! ?m)"
    using terminal_cost_mono[OF filled2_cost_grid[OF s2(2)] filled2_cost_grid[OF s2'(2)] _ assms(3,4,5)]
    by simp
  moreover have "compute_optimal_edits from to costs = Some (Inr a)"
    "compute_optimal_edits from to ?costs' = Some (Inr a')"
    using a(2) a'(2) by (simp_all add: compute_optimal_edits_def)
  ultimately show ?thesis
    using s2(1) s2'(1) by blast
qed

theorem replace_cost_monotone_witness:
  "length ''ab'' < 2 ^ 32 - 1 \<and> length ''cb'' < 2 ^ 32 - 1 \<and> std_edit_costs REPLACE \<le> 7 \<and>
   (\<forall>t. unat ((std_edit_costs(REPLACE := 7)) t) \<le> 15) \<and>
   (length ''ab'' + length ''cb'') * 15 < 2 ^ 32 \<and>
   (\<exists>a a' s2 s2'.
      compute_optimal_edits ''ab'' ''cb'' std_edit_costs = Some (Inr a) \<and>
      compute_optimal_edits ''ab'' ''cb'' (std_edit_costs(REPLACE := 7)) = Some (Inr a') \<and>
      sum_list (map (\<lambda>e. unat (std_edit_costs (type e))) a)
        \<le> sum_list (map (\<lambda>e. unat ((std_edit_costs(REPLACE := 7)) (type e))) a') \<and>
      build_matrix2 ''ab'' ''cb'' std_edit_costs = Inr s2 \<and>
      build_matrix2 ''ab'' ''cb'' (std_edit_costs(REPLACE := 7)) = Inr s2' \<and>
      cost2 (edit_matrix s2 ! length ''cb'' ! length ''ab'')
        \<le> cost2 (edit_matrix s2' ! length ''cb'' ! length ''ab''))"
proof -
  have h: "\<forall>t. unat ((std_edit_costs(REPLACE := 7)) t) \<le> 15"
    by (auto simp: std_edit_costs_def split: EditType.split)
  have r: "std_edit_costs REPLACE \<le> 7"
    by (simp add: std_edit_costs_def)
  show ?thesis
    using replace_cost_monotone[of "''ab''" "''cb''" std_edit_costs 7 15] h r by simp
qed

text \<open>
  Against the claim.  In the second listing the terminal cell for \<^verbatim>\<open>a\<close> and \<^verbatim>\<open>b\<close> holds 20
  when \<open>REPLACE\<close> costs 2 and 100 when it costs 100: the greatest cost has grown.  In the
  first listing, with costs near \<open>2^31\<close>, the alignment of \<^verbatim>\<open>ab\<close> with \<^verbatim>\<open>cd\<close> is two
  replacements under both models, and their \<^verbatim>\<open>unsigned\<close> total falls from 2 to 0 when
  \<open>REPLACE\<close> grows from 1 to \<open>2^31\<close>.
\<close>

theorem replace_cost_counterexample:
  "map_sum id edit_matrix (build_matrix2 ''a'' ''b'' std_edit_costs2)
     = Inr [[\<lparr>edit2 = \<lparr>type2 = SKIP, ch2 = CHR 0x00\<rparr>, cost2 = 0\<rparr>,
             \<lparr>edit2 = \<lparr>type2 = DELETE, ch2 = CHR 0x00\<rparr>, cost2 = 10\<rparr>],
            [\<lparr>edit2 = \<lparr>type2 = INSERT, ch2 = CHR ''b''\<rparr>, cost2 = 10\<rparr>,
             \<lparr>edit2 = \<lparr>type2 = DELETE, ch2 = CHR ''b''\<rparr>, cost2 = 20\<rparr>]] \<and>
   map_sum id edit_matrix (build_matrix2 ''a'' ''b'' (std_edit_costs2(REPLACE := 100)))
     = Inr [[\<lparr>edit2 = \<lparr>type2 = SKIP, ch2 = CHR 0x00\<rparr>, cost2 = 0\<rparr>,
             \<lparr>edit2 = \<lparr>type2 = DELETE, ch2 = CHR 0x00\<rparr>, cost2 = 10\<rparr>],
            [\<lparr>edit2 = \<lparr>type2 = INSERT, ch2 = CHR ''b''\<rparr>, cost2 = 10\<rparr>,
             \<lparr>edit2 = \<lparr>type2 = REPLACE, ch2 = CHR ''b''\<rparr>, cost2 = 100\<rparr>]] \<and>
   std_edit_costs2 REPLACE < 100 \<and> (20 :: unsigned) < 100 \<and>
   compute_optimal_edits ''ab'' ''cd''
       (std_edit_costs(DELETE := 2147483647, INSERT := 2147483647, REPLACE := 1))
     = Some (Inr [\<lparr>type = REPLACE, from_ch = CHR ''a'', to_ch = CHR ''c''\<rparr>,
                  \<lparr>type = REPLACE, from_ch = CHR ''b'', to_ch = CHR ''d''\<rparr>]) \<and>
   compute_optimal_edits ''ab'' ''cd''
       (std_edit_costs(DELETE := 2147483647, INSERT := 2147483647, REPLACE := 2147483648))
     = Some (Inr [\<lparr>type = REPLACE, from_ch = CHR ''a'', to_ch = CHR ''c''\<rparr>,
                  \<lparr>type = REPLACE, from_ch = CHR ''b'', to_ch = CHR ''d''\<rparr>]) \<and>
   (std_edit_costs(REPLACE := 1)) REPLACE + (std_edit_costs(REPLACE := 1)) REPLACE = 2 \<and>
   (std_edit_costs(REPLACE := 2147483648)) REPLACE
     + (std_edit_costs(REPLACE := 2147483648)) REPLACE = 0"
  by code_simp

text \<open>
  C10.  In \<^verbatim>\<open>unsigned\<close> arithmetic \<open>x - 1 + 1 = x\<close> for every \<open>x\<close>, also for \<open>x = 0\<close>, where
  \<open>x - 1\<close> wraps to \<open>2^32 - 1\<close>.  So, for strings of length \<open>m\<close> and \<open>n\<close> below \<open>2^32 - 1\<close>, the
  construction of the matrix ends in both listings with the same history of accesses: the
  assignments of the initial row, and then for every \<open>to_idx < n\<close> the assignment of
  \<open>(to_idx + 1, 0)\<close> followed, for every \<open>from_idx < m\<close>, by the reads of
  \<open>(to_idx, from_idx + 1)\<close>, \<open>(to_idx + 1, from_idx)\<close> and \<open>(to_idx, from_idx)\<close> and the
  assignment of \<open>(to_idx + 1, from_idx + 1)\<close>.  Every access of this history lies in the
  \<open>(n + 1) \<times> (m + 1)\<close> grid, and every read is of a cell assigned earlier, or of the cell
  \<open>(0, 0)\<close>, which keeps the value its constructor gave it.
\<close>

theorem recurrence_reads:
  assumes "length from < 2 ^ 32 - 1" and "length to < 2 ^ 32 - 1"
  shows "(0 :: unsigned) - 1 = 4294967295 \<and> (\<forall>x :: unsigned. x - 1 + 1 = x) \<and>
    (\<exists>s s2. build_matrix from to costs = Inr s \<and> build_matrix2 from to costs = Inr s2 \<and>
       accesses s2 = accesses s \<and>
       accesses s =
         map (\<lambda>j. Write 0 (Suc j)) [0..<length from] @
         concat (map (\<lambda>i. Write (Suc i) 0 #
                   concat (map (\<lambda>j. [Read i (Suc j), Read (Suc i) j, Read i j, Write (Suc i) (Suc j)])
                     [0..<length from]))
           [0..<length to]) \<and>
       list_all (within (length to) (length from)) (accesses s) \<and>
       written_before_read {(0, 0)} (accesses s))"
proof -
  have m: "Suc (length from) < 2 ^ 32" and n: "Suc (length to) < 2 ^ 32"
    using assms by simp_all
  obtain s where s: "build_matrix from to costs = Inr s"
    "accesses s = build_accesses (length from) (length to)"
    using build_matrix_filled[OF m n] by blast
  obtain s2 where s2: "build_matrix2 from to costs = Inr s2"
    "accesses s2 = build_accesses (length from) (length to)"
    using build_matrix_filled2[OF m n] by blast
  have "accesses s =
         map (\<lambda>j. Write 0 (Suc j)) [0..<length from] @
         concat (map (\<lambda>i. Write (Suc i) 0 #
                   concat (map (\<lambda>j. [Read i (Suc j), Read (Suc i) j, Read i j, Write (Suc i) (Suc j)])
                     [0..<length from]))
           [0..<length to])"
    unfolding s(2) build_accesses_def row_accesses_def [abs_def] cell_accesses_def [abs_def] ..
  moreover have "list_all (within (length to) (length from)) (accesses s)"
    unfolding s(2) by (rule build_accesses_within)
  moreover have "written_before_read {(0, 0)} (accesses s)"
    unfolding s(2) by (rule build_accesses_written)
  ultimately show ?thesis
    using s s2 by simp
qed

theorem recurrence_reads_witness:
  "length ''ab'' < 2 ^ 32 - 1 \<and> length ''c'' < 2 ^ 32 - 1 \<and>
   (\<exists>s s2. build_matrix ''ab'' ''c'' std_edit_costs = Inr s \<and>
      build_matrix2 ''ab'' ''c'' std_edit_costs2 = Inr s2 \<and>
      accesses s2 = accesses s \<and>
      accesses s = [Write 0 1, Write 0 2, Write 1 0, Read 0 1, Read 1 0, Read 0 0, Write 1 1,
                    Read 0 2, Read 1 1, Read 0 1, Write 1 2] \<and>
      list_all (within (length ''c'') (length ''ab'')) (accesses s) \<and>
      written_before_read {(0, 0)} (accesses s))"
proof -
  have "length ''ab'' < 2 ^ 32 - 1" "length ''c'' < 2 ^ 32 - 1"
    by simp_all
  from recurrence_reads[OF this, of std_edit_costs]
  obtain s s2' where s: "build_matrix ''ab'' ''c'' std_edit_costs = Inr s"
    "accesses s =
         map (\<lambda>j. Write 0 (Suc j)) [0..<length ''ab''] @
         concat (map (\<lambda>i. Write (Suc i) 0 #
                   concat (map (\<lambda>j. [Read i (Suc j), Read (Suc i) j, Read i j, Write (Suc i) (Suc j)])
                     [0..<length ''ab'']))
           [0..<length ''c''])"
    "list_all (within (length ''c'') (length ''ab'')) (accesses s)"
    "written_before_read {(0, 0)} (accesses s)"
    by blast
  from recurrence_reads[OF \<open>length ''ab'' < 2 ^ 32 - 1\<close> \<open>length ''c'' < 2 ^ 32 - 1\<close>, of std_edit_costs2]
  obtain t s2 where s2: "build_matrix ''ab'' ''c'' std_edit_costs2 = Inr t"
    "build_matrix2 ''ab'' ''c'' std_edit_costs2 = Inr s2" "accesses s2 = accesses t"
    "accesses t =
         map (\<lambda>j. Write 0 (Suc j)) [0..<length ''ab''] @
         concat (map (\<lambda>i. Write (Suc i) 0 #
                   concat (map (\<lambda>j. [Read i (Suc j), Read (Suc i) j, Read i j, Write (Suc i) (Suc j)])
                     [0..<length ''ab'']))
           [0..<length ''c''])"
    by blast
  have "accesses s = [Write 0 1, Write 0 2, Write 1 0, Read 0 1, Read 1 0, Read 0 0, Write 1 1,
                    Read 0 2, Read 1 1, Read 0 1, Write 1 2]"
    unfolding s(2) by (simp add: upt_rec)
  moreover have "accesses s2 = accesses s"
    using s(2) s2(3,4) by simp
  ultimately show ?thesis
    using s(1,3,4) s2(2) by simp
qed

end
